theory Spec2Isabelle
  imports Main "HOL-Library.Word"
begin

section \<open>Text and bytes\<close>

text \<open>
  The watcher (\<^verbatim>\<open>main.py\<close>) reads \<^verbatim>\<open>bytes\<close> from a socket and works on Python
  \<^verbatim>\<open>str\<close> values. A Python \<^verbatim>\<open>str\<close> is a sequence of Unicode code points, so text is
  a list of code points here and a transport chunk is a list of 8-bit words.
  \<open>str\<close> gives the code points of an ASCII literal of the source.
\<close>

type_synonym byte = "8 word"
type_synonym codepoint = nat
type_synonym pystr = "codepoint list"

definition str :: "string \<Rightarrow> pystr" where
  "str cs = map of_char cs"

definition CRLF :: pystr where
  "CRLF = [13, 10]"

subsection \<open>\<^verbatim>\<open>str.startswith\<close>, \<^verbatim>\<open>in\<close>, \<^verbatim>\<open>str.find\<close>, \<^verbatim>\<open>str.split(sep, 1)\<close>\<close>

fun startswith :: "'a list \<Rightarrow> 'a list \<Rightarrow> bool" where
  "startswith s [] = True"
| "startswith [] (p # ps) = False"
| "startswith (c # cs) (p # ps) = (c = p \<and> startswith cs ps)"

text \<open>\<open>find_str s sub\<close> is the lowest index at which \<open>sub\<close> occurs in \<open>s\<close>;
  \<open>None\<close> stands for Python's \<^verbatim>\<open>-1\<close>.\<close>

fun find_str :: "'a list \<Rightarrow> 'a list \<Rightarrow> nat option" where
  "find_str [] sub = (if sub = [] then Some 0 else None)"
| "find_str (c # cs) sub =
     (if startswith (c # cs) sub then Some 0 else map_option Suc (find_str cs sub))"

definition contains :: "'a list \<Rightarrow> 'a list \<Rightarrow> bool" where
  "contains sub s = (find_str s sub \<noteq> None)"

text \<open>\<^verbatim>\<open>s.split(sep, 1)\<close> for a non-empty separator (both separators of the source are
  literals of two characters): at most one split, at the first occurrence.\<close>

definition split1 :: "'a list \<Rightarrow> 'a list \<Rightarrow> 'a list list" where
  "split1 s sep =
     (case find_str s sep of
        None \<Rightarrow> [s]
      | Some i \<Rightarrow> [take i s, drop (i + length sep) s])"

subsection \<open>\<^verbatim>\<open>str.strip()\<close>\<close>

text \<open>The code points Python's \<^verbatim>\<open>str.isspace\<close> accepts; \<^verbatim>\<open>strip()\<close> without an
  argument removes them at both ends.\<close>

definition is_space :: "codepoint \<Rightarrow> bool" where
  "is_space c =
     ((9 \<le> c \<and> c \<le> 13) \<or> (28 \<le> c \<and> c \<le> 32) \<or> c = 0x85 \<or> c = 0xA0 \<or> c = 0x1680
      \<or> (0x2000 \<le> c \<and> c \<le> 0x200A) \<or> c = 0x2028 \<or> c = 0x2029 \<or> c = 0x202F
      \<or> c = 0x205F \<or> c = 0x3000)"

definition strip :: "pystr \<Rightarrow> pystr" where
  "strip s = rev (dropWhile is_space (rev (dropWhile is_space s)))"

subsection \<open>\<^verbatim>\<open>bytes.decode('utf-8', errors='ignore')\<close>\<close>

text \<open>
  The decoder of CPython: a byte below \<^verbatim>\<open>0x80\<close> is its own code point; a lead byte
  announces one, two or three continuation bytes. With \<^verbatim>\<open>errors='ignore'\<close> an invalid
  start byte is dropped, a sequence broken by a byte that cannot continue it is dropped
  up to that byte (decoding resumes at it), and a sequence cut off by the end of the
  input is dropped whole.
\<close>

definition is_continuation :: "byte \<Rightarrow> bool" where
  "is_continuation b = (0x80 \<le> b \<and> b \<le> 0xBF)"

definition second_ok3 :: "byte \<Rightarrow> byte \<Rightarrow> bool" where
  "second_ok3 b b2 =
     (is_continuation b2 \<and> \<not> (b = 0xE0 \<and> b2 < 0xA0) \<and> \<not> (b = 0xED \<and> 0xA0 \<le> b2))"

definition second_ok4 :: "byte \<Rightarrow> byte \<Rightarrow> bool" where
  "second_ok4 b b2 =
     (is_continuation b2 \<and> \<not> (b = 0xF0 \<and> b2 < 0x90) \<and> \<not> (b = 0xF4 \<and> 0x90 \<le> b2))"

definition cp2 :: "byte \<Rightarrow> byte \<Rightarrow> codepoint" where
  "cp2 b b2 = (unat b - 0xC0) * 64 + (unat b2 - 0x80)"

definition cp3 :: "byte \<Rightarrow> byte \<Rightarrow> byte \<Rightarrow> codepoint" where
  "cp3 b b2 b3 = (unat b - 0xE0) * 4096 + (unat b2 - 0x80) * 64 + (unat b3 - 0x80)"

definition cp4 :: "byte \<Rightarrow> byte \<Rightarrow> byte \<Rightarrow> byte \<Rightarrow> codepoint" where
  "cp4 b b2 b3 b4 =
     (unat b - 0xF0) * 262144 + (unat b2 - 0x80) * 4096 + (unat b3 - 0x80) * 64
     + (unat b4 - 0x80)"

fun utf8_decode_ignore :: "byte list \<Rightarrow> pystr" where
  "utf8_decode_ignore [] = []"
| "utf8_decode_ignore (b # bs) =
     (if b < 0x80 then unat b # utf8_decode_ignore bs
      else if b < 0xC2 then utf8_decode_ignore bs
      else if b < 0xE0 then
        (case bs of
           [] \<Rightarrow> []
         | b2 # r2 \<Rightarrow>
             if is_continuation b2 then cp2 b b2 # utf8_decode_ignore r2
             else utf8_decode_ignore bs)
      else if b < 0xF0 then
        (case bs of
           [] \<Rightarrow> []
         | b2 # r2 \<Rightarrow>
             if \<not> second_ok3 b b2 then utf8_decode_ignore bs
             else (case r2 of
                     [] \<Rightarrow> []
                   | b3 # r3 \<Rightarrow>
                       if is_continuation b3 then cp3 b b2 b3 # utf8_decode_ignore r3
                       else utf8_decode_ignore r2))
      else if b < 0xF5 then
        (case bs of
           [] \<Rightarrow> []
         | b2 # r2 \<Rightarrow>
             if \<not> second_ok4 b b2 then utf8_decode_ignore bs
             else (case r2 of
                     [] \<Rightarrow> []
                   | b3 # r3 \<Rightarrow>
                       if \<not> is_continuation b3 then utf8_decode_ignore r2
                       else (case r3 of
                               [] \<Rightarrow> []
                             | b4 # r4 \<Rightarrow>
                                 if is_continuation b4
                                 then cp4 b b2 b3 b4 # utf8_decode_ignore r4
                                 else utf8_decode_ignore r3)))
      else utf8_decode_ignore bs)"

section \<open>The code pattern\<close>

text \<open>
  \<^verbatim>\<open>str.upper()\<close> and the regular expression's \<^verbatim>\<open>\b\<close> consult the Unicode
  character database. On ASCII both are written out; for a code point from 128 on the
  database is a parameter: its full upper-case mapping and whether the regular
  expression engine counts it as a word character (alphanumeric).
\<close>

record unicode_db =
  uni_upper :: "codepoint \<Rightarrow> pystr"
  uni_alnum :: "codepoint \<Rightarrow> bool"

definition upper_cp :: "unicode_db \<Rightarrow> codepoint \<Rightarrow> pystr" where
  "upper_cp db c =
     (if c < 128 then (if 97 \<le> c \<and> c \<le> 122 then [c - 32] else [c]) else uni_upper db c)"

definition upper :: "unicode_db \<Rightarrow> pystr \<Rightarrow> pystr" where
  "upper db s = concat (map (upper_cp db) s)"

definition is_word :: "unicode_db \<Rightarrow> codepoint \<Rightarrow> bool" where
  "is_word db c =
     (if c < 128
      then ((48 \<le> c \<and> c \<le> 57) \<or> (65 \<le> c \<and> c \<le> 90) \<or> (97 \<le> c \<and> c \<le> 122) \<or> c = 95)
      else uni_alnum db c)"

text \<open>\<^verbatim>\<open>\b\<close> at position \<open>i\<close> of \<open>s\<close>: exactly one of the characters before and at
  \<open>i\<close> is a word character (a missing neighbour counts as none).\<close>

definition at_boundary :: "unicode_db \<Rightarrow> pystr \<Rightarrow> nat \<Rightarrow> bool" where
  "at_boundary db s i =
     ((0 < i \<and> i \<le> length s \<and> is_word db (s ! (i - 1))) \<noteq> (i < length s \<and> is_word db (s ! i)))"

text \<open>The constructs of the default pattern
  \<^verbatim>\<open>\b[A-Z0-9]{4}(?:-[A-Z0-9]{4}){3}\b\<close>: a literal character, a class of ranges,
  \<^verbatim>\<open>\b\<close>, concatenation and repetition an exact number of times.\<close>

datatype regex =
    Chr codepoint
  | Class "(codepoint \<times> codepoint) list"
  | WordBoundary
  | Seq regex regex
  | Repeat nat regex

definition in_class :: "(codepoint \<times> codepoint) list \<Rightarrow> codepoint \<Rightarrow> bool" where
  "in_class rs c = list_ex (\<lambda>(lo, hi). lo \<le> c \<and> c \<le> hi) rs"

fun iterate_match :: "nat \<Rightarrow> (nat \<Rightarrow> nat option) \<Rightarrow> nat \<Rightarrow> nat option" where
  "iterate_match 0 m i = Some i"
| "iterate_match (Suc n) m i =
     (case m i of None \<Rightarrow> None | Some j \<Rightarrow> iterate_match n m j)"

text \<open>\<open>rmatch db r s i\<close>: the end of the match of \<open>r\<close> in \<open>s\<close> that starts at \<open>i\<close>. None
  of the constructs offers a choice, so there is at most one.\<close>

fun rmatch :: "unicode_db \<Rightarrow> regex \<Rightarrow> pystr \<Rightarrow> nat \<Rightarrow> nat option" where
  "rmatch db (Chr c) s i = (if i < length s \<and> s ! i = c then Some (Suc i) else None)"
| "rmatch db (Class rs) s i =
     (if i < length s \<and> in_class rs (s ! i) then Some (Suc i) else None)"
| "rmatch db WordBoundary s i = (if at_boundary db s i then Some i else None)"
| "rmatch db (Seq r1 r2) s i =
     (case rmatch db r1 s i of None \<Rightarrow> None | Some j \<Rightarrow> rmatch db r2 s j)"
| "rmatch db (Repeat n r) s i = iterate_match n (\<lambda>j. rmatch db r s j) i"

definition alnum_upper :: regex where
  "alnum_upper = Class [(65, 90), (48, 57)]"

definition default_pattern :: regex where
  "default_pattern =
     Seq WordBoundary
       (Seq (Repeat 4 alnum_upper)
          (Seq (Repeat 3 (Seq (Chr 45) (Repeat 4 alnum_upper))) WordBoundary))"

text \<open>A match never ends before its start: the scan below relies on it to advance.\<close>

lemma iterate_match_le:
  assumes "\<And>i j. m i = Some j \<Longrightarrow> i \<le> j"
  shows "iterate_match n m i = Some e \<Longrightarrow> i \<le> e"
proof (induction n arbitrary: i)
  case 0
  then show ?case by simp
next
  case (Suc n)
  then obtain j where "m i = Some j" and "iterate_match n m j = Some e"
    by (auto split: option.splits)
  with Suc.IH assms show ?case by (meson le_trans)
qed

lemma rmatch_le: "rmatch db r s i = Some e \<Longrightarrow> i \<le> e"
proof (induction r arbitrary: i e)
  case (Seq r1 r2)
  then obtain j where "rmatch db r1 s i = Some j" and "rmatch db r2 s j = Some e"
    by (auto split: option.splits)
  with Seq.IH show ?case by (meson le_trans)
next
  case (Repeat n r)
  from Repeat.prems have "iterate_match n (\<lambda>j. rmatch db r s j) i = Some e" by simp
  then show ?case by (rule iterate_match_le [rotated]) (rule Repeat.IH)
qed (auto split: if_splits)

text \<open>
  \<^verbatim>\<open>pattern.finditer(s)\<close>: the scan tries each start from left to right; after a match
  it resumes at the end of the match, where an empty match is not accepted a second
  time (\<open>must_advance\<close>). The result lists \<^verbatim>\<open>m.group(0)\<close> of every match.
\<close>

function finditer_from :: "unicode_db \<Rightarrow> regex \<Rightarrow> pystr \<Rightarrow> nat \<Rightarrow> bool \<Rightarrow> pystr list" where
  "finditer_from db r s i must_advance =
     (if length s < i then []
      else (case rmatch db r s i of
              None \<Rightarrow> finditer_from db r s (Suc i) False
            | Some e \<Rightarrow>
                if must_advance \<and> e = i then finditer_from db r s (Suc i) False
                else take (e - i) (drop i s) # finditer_from db r s e (e = i)))"
  by pat_completeness auto
termination
proof (relation "measure (\<lambda>(db, r, s, i, adv). 2 * (Suc (length s) - i) + (if adv then 0 else 1))",
    goal_cases)
  case 1
  then show ?case by simp
next
  case (2 db r s i must_advance)
  then show ?case by (auto split: if_splits)
next
  case (3 db r s i must_advance e)
  then show ?case by (auto split: if_splits)
next
  case (4 db r s i must_advance e)
  from 4(2) have "i \<le> e" by (rule rmatch_le)
  with 4 show ?case by (auto split: if_splits)
qed

definition finditer :: "unicode_db \<Rightarrow> regex \<Rightarrow> pystr \<Rightarrow> pystr list" where
  "finditer db r s = finditer_from db r s 0 False"

section \<open>The watcher\<close>

subsection \<open>What the process does to the outside\<close>

text \<open>
  The observable actions, in the order the program performs them: the lines it prints
  (without their timestamp; the notes about \<^verbatim>\<open>EA_PID\<close> at start-up and the lines of
  \<^verbatim>\<open>focus_and_type\<close> are not recorded), the calls on the socket, the calls of
  \<^verbatim>\<open>process_message\<close> and the notifier actions of \<^verbatim>\<open>handle_code\<close>. \<^verbatim>\<open>send\<close> records
  the text it is given with the terminator appended, before it is encoded; a call on the
  socket is recorded when it is made, also when it then raises. Printing is taken to
  succeed.
\<close>

datatype log_line =
    MissingEnv
  | BadOauthPrefix
  | Connecting pystr
  | SelfTest pystr
  | SelfTestComplete
  | Joined pystr
  | ConnectionReset
  | Disconnected
  | CodeDetected pystr
  | CodeRepeat pystr

datatype event =
    Print log_line
  | SockConnect
  | SockSend pystr
  | CallProcessMessage pystr
  | CopyToClipboard pystr
  | Beep
  | FocusAndType pystr

text \<open>The mutable state: the module's set \<^verbatim>\<open>seen_codes\<close> and the actions so far.\<close>

record state =
  seen_codes :: "pystr set"
  trace :: "event list"

definition emit :: "state \<Rightarrow> event list \<Rightarrow> state" where
  "emit st es = st\<lparr>trace := trace st @ es\<rparr>"

definition initial :: state where
  "initial = \<lparr>seen_codes = {}, trace = []\<rparr>"

subsection \<open>Configuration (module initialisation)\<close>

text \<open>
  The environment variables the module reads; \<open>None\<close> is an unset variable.
  \<^verbatim>\<open>CODE_REGEX\<close> is given by what \<^verbatim>\<open>re.compile\<close> makes of its value: a pattern object,
  seen through its \<^verbatim>\<open>finditer\<close> (the matched substrings of a text from left to right),
  or \<^verbatim>\<open>re.error\<close> for a value that is no regular expression.
\<close>

type_synonym compiled = "pystr \<Rightarrow> pystr list"

datatype code_regex_value = Unset | Malformed | Pattern compiled

record environ =
  TWITCH_NICK :: "pystr option"
  TWITCH_OAUTH :: "pystr option"
  TWITCH_CHANNEL :: "pystr option"
  CODE_REGEX :: code_regex_value
  AUTO_REDEEM_env :: "pystr option"
  NO_CONNECT :: "pystr option"
  TEST_MESSAGE :: "pystr option"

definition getenv :: "'a option \<Rightarrow> 'a \<Rightarrow> 'a" where
  "getenv v dflt = (case v of None \<Rightarrow> dflt | Some x \<Rightarrow> x)"

text \<open>The module's globals once initialisation has passed its checks.\<close>

record globals =
  NICK :: pystr
  TOKEN :: pystr
  CHANNEL :: pystr
  code_regex :: compiled
  AUTO_REDEEM :: bool

datatype exn = SystemExit nat | OSError | UnicodeEncodeError | ReError

text \<open>Lines 23 to 50 of \<^verbatim>\<open>main.py\<close>: \<open>Inl\<close> is the exception that ends the start-up, with
  what was printed before it: \<^verbatim>\<open>sys.exit(1)\<close> after the printed line of a failed check,
  or the \<^verbatim>\<open>re.error\<close> of \<^verbatim>\<open>re.compile\<close> on line 50, which nobody catches. (The
  handling of \<^verbatim>\<open>EA_PID\<close> in between only prints.)\<close>

definition module_init :: "unicode_db \<Rightarrow> environ \<Rightarrow> (event list \<times> exn) + globals" where
  "module_init db env =
     (let nick = strip (getenv (TWITCH_NICK env) []);
          token = strip (getenv (TWITCH_OAUTH env) []);
          channel_raw = strip (getenv (TWITCH_CHANNEL env) []);
          channel = (if channel_raw \<noteq> [] \<and> \<not> startswith channel_raw (str ''#'')
                     then str ''#'' @ channel_raw else channel_raw)
      in if \<not> (nick \<noteq> [] \<and> token \<noteq> [] \<and> channel \<noteq> [])
         then Inl ([Print MissingEnv], SystemExit 1)
         else if \<not> startswith token (str ''oauth:'')
         then Inl ([Print BadOauthPrefix], SystemExit 1)
         else (case CODE_REGEX env of
                 Malformed \<Rightarrow> Inl ([], ReError)
               | Unset \<Rightarrow>
                   Inr \<lparr>NICK = nick, TOKEN = token, CHANNEL = channel,
                        code_regex = finditer db default_pattern,
                        AUTO_REDEEM = (AUTO_REDEEM_env env = Some (str ''1''))\<rparr>
               | Pattern c \<Rightarrow>
                   Inr \<lparr>NICK = nick, TOKEN = token, CHANNEL = channel, code_regex = c,
                        AUTO_REDEEM = (AUTO_REDEEM_env env = Some (str ''1''))\<rparr>))"

subsection \<open>\<^verbatim>\<open>handle_code\<close> and \<^verbatim>\<open>process_message\<close>\<close>

text \<open>The block under \<^verbatim>\<open>with lock:\<close>, one indivisible step: the value of \<^verbatim>\<open>first\<close>
  and the registry after it.\<close>

definition classify :: "pystr \<Rightarrow> pystr set \<Rightarrow> bool \<times> pystr set" where
  "classify code seen = (if code \<notin> seen then (True, insert code seen) else (False, seen))"

definition handle_code :: "globals \<Rightarrow> pystr \<Rightarrow> state \<Rightarrow> state" where
  "handle_code g code st =
     (case classify code (seen_codes st) of
        (first, seen') \<Rightarrow>
          (let st1 = st\<lparr>seen_codes := seen'\<rparr>
           in if first
              then emit st1 ([CopyToClipboard code, Print (CodeDetected code), Beep]
                             @ (if AUTO_REDEEM g then [FocusAndType code] else []))
              else emit st1 [Print (CodeRepeat code)]))"

definition extract_codes :: "unicode_db \<Rightarrow> globals \<Rightarrow> pystr \<Rightarrow> pystr list" where
  "extract_codes db g msg = code_regex g (upper db msg)"

definition process_message :: "unicode_db \<Rightarrow> globals \<Rightarrow> pystr \<Rightarrow> state \<Rightarrow> state" where
  "process_message db g msg st =
     foldl (\<lambda>s code. handle_code g code s) (emit st [CallProcessMessage msg]) (extract_codes db g msg)"

subsection \<open>The session\<close>

text \<open>
  \<^verbatim>\<open>send\<close> (lines 220 and 221) can raise in two ways, and nothing catches either.
  \<^verbatim>\<open>encode('utf-8')\<close> is strict: it raises \<^verbatim>\<open>UnicodeEncodeError\<close> on a surrogate code
  point, which \<^verbatim>\<open>os.getenv\<close> yields for a byte of the environment that is not UTF-8;
  the socket is then not called. And \<^verbatim>\<open>sock.send\<close> itself can raise an
  \<^verbatim>\<open>OSError\<close>: whether the call number \<open>n\<close> on the socket does is the input \<open>sf n\<close>
  (calls are counted from 0).
\<close>

definition encodable :: "codepoint \<Rightarrow> bool" where
  "encodable c = (\<not> (0xD800 \<le> c \<and> c \<le> 0xDFFF))"

fun is_sock_send :: "event \<Rightarrow> bool" where
  "is_sock_send (SockSend m) = True"
| "is_sock_send e = False"

definition sends_made :: "state \<Rightarrow> nat" where
  "sends_made st = length (filter is_sock_send (trace st))"

definition send :: "(nat \<Rightarrow> bool) \<Rightarrow> state \<Rightarrow> pystr \<Rightarrow> (exn \<times> state) + state" where
  "send sf st msg =
     (if \<not> list_all encodable (msg @ CRLF) then Inl (UnicodeEncodeError, st)
      else if sf (sends_made st) then Inl (OSError, emit st [SockSend (msg @ CRLF)])
      else Inr (emit st [SockSend (msg @ CRLF)]))"

text \<open>The body of the inner loop for one \<^verbatim>\<open>line\<close> (lines 250 to 258); \<open>Inl\<close> is an
  exception that leaves the loop, with the state at that moment.\<close>

definition process_line ::
  "unicode_db \<Rightarrow> globals \<Rightarrow> (nat \<Rightarrow> bool) \<Rightarrow> state \<Rightarrow> pystr \<Rightarrow> (exn \<times> state) + state" where
  "process_line db g sf st line =
     (if line = [] then Inr st
      else if startswith line (str ''PING'') then send sf st (str ''PONG :tmi.twitch.tv'')
      else (let parts = split1 line (str '' :'')
            in if length parts = 2 then Inr (process_message db g (parts ! 1) st)
               else Inr st))"

lemma find_str_bound: "find_str s sub = Some i \<Longrightarrow> sub \<noteq> [] \<Longrightarrow> i < length s"
  by (induction s arbitrary: i) (auto split: if_splits)

text \<open>
  The inner loop \<^verbatim>\<open>while '\r\n' in buf\<close>: the state after the lines it has split
  off, and the buffer it leaves, or the exception of the line that raised. The unpacking \<^verbatim>\<open>line, buf = buf.split('\r\n', 1)\<close>
  always finds two parts under the loop's condition (\<open>split1_two\<close> below); the
  other branch of the \<open>case\<close> is never taken.
\<close>

function drain ::
  "unicode_db \<Rightarrow> globals \<Rightarrow> (nat \<Rightarrow> bool) \<Rightarrow> state \<Rightarrow> pystr
     \<Rightarrow> (exn \<times> state) + (state \<times> pystr)" where
  "drain db g sf st buf =
     (if contains CRLF buf
      then (case split1 buf CRLF of
              [line, rest] \<Rightarrow>
                (case process_line db g sf st line of
                   Inl x \<Rightarrow> Inl x
                 | Inr st' \<Rightarrow> drain db g sf st' rest)
            | _ \<Rightarrow> Inr (st, buf))
      else Inr (st, buf))"
  by pat_completeness auto
termination
proof (relation "measure (\<lambda>(db, g, sf, st, buf). length buf)", goal_cases)
  case 1
  then show ?case by simp
next
  case (2 db g sf st buf line xs rest ys st')
  then show ?case
    by (auto simp: split1_def CRLF_def split: option.splits dest!: find_str_bound)
qed

text \<open>The framer on its own: the values \<^verbatim>\<open>line\<close> takes in the inner loop, in order, and
  the buffer that remains.\<close>

function frame :: "pystr \<Rightarrow> pystr list \<times> pystr" where
  "frame buf =
     (if contains CRLF buf
      then (case split1 buf CRLF of
              [line, rest] \<Rightarrow> (case frame rest of (ls, b) \<Rightarrow> (line # ls, b))
            | _ \<Rightarrow> ([], buf))
      else ([], buf))"
  by pat_completeness auto
termination
proof (relation "measure length", goal_cases)
  case 1
  then show ?case by simp
next
  case (2 buf line xs rest ys)
  then show ?case
    by (auto simp: split1_def CRLF_def split: option.splits dest!: find_str_bound)
qed

declare drain.simps [simp del] frame.simps [simp del] finditer_from.simps [simp del]

text \<open>The lines of a list in order, as the inner loop handles them: the first exception
  ends it.\<close>

fun process_lines ::
  "unicode_db \<Rightarrow> globals \<Rightarrow> (nat \<Rightarrow> bool) \<Rightarrow> state \<Rightarrow> pystr list \<Rightarrow> (exn \<times> state) + state" where
  "process_lines db g sf st [] = Inr st"
| "process_lines db g sf st (l # ls) =
     (case process_line db g sf st l of
        Inl x \<Rightarrow> Inl x
      | Inr st' \<Rightarrow> process_lines db g sf st' ls)"

text \<open>The state a line, or the inner loop, leaves behind, whether it raised or not.\<close>

definition line_state :: "(exn \<times> state) + state \<Rightarrow> state" where
  "line_state r = (case r of Inl (e, st) \<Rightarrow> st | Inr st \<Rightarrow> st)"

definition drain_state :: "(exn \<times> state) + (state \<times> pystr) \<Rightarrow> state" where
  "drain_state r = (case r of Inl (e, st) \<Rightarrow> st | Inr (st, buf) \<Rightarrow> st)"


text \<open>
  What the socket does is the program's input: whether \<^verbatim>\<open>connect\<close> raises, what
  each \<^verbatim>\<open>recv(4096)\<close> gives: bytes (none at all when the peer has closed),
  \<^verbatim>\<open>ConnectionResetError\<close>, or another error, and which calls of \<^verbatim>\<open>sock.send\<close>
  raise. When the script of \<^verbatim>\<open>recv\<close> has run out the next \<^verbatim>\<open>recv\<close> does not return.
\<close>

datatype recv_result = RecvBytes "byte list" | RecvReset | RecvError

record world =
  connect_fails :: bool
  recvs :: "recv_result list"
  send_fails :: "nat \<Rightarrow> bool"

datatype ending = Returned | Raised exn | Blocked

text \<open>The outer loop \<^verbatim>\<open>while True\<close> (lines 238 to 258).\<close>

fun serve ::
  "unicode_db \<Rightarrow> globals \<Rightarrow> (nat \<Rightarrow> bool) \<Rightarrow> state \<Rightarrow> pystr \<Rightarrow> recv_result list
     \<Rightarrow> ending \<times> state" where
  "serve db g sf st buf [] = (Blocked, st)"
| "serve db g sf st buf (RecvReset # rs) = (Returned, emit st [Print ConnectionReset])"
| "serve db g sf st buf (RecvError # rs) = (Raised OSError, st)"
| "serve db g sf st buf (RecvBytes bs # rs) =
     (let data = utf8_decode_ignore bs
      in if data = [] then (Returned, emit st [Print Disconnected])
         else (case drain db g sf st (buf @ data) of
                 Inl (e, st') \<Rightarrow> (Raised e, st')
               | Inr (st', buf') \<Rightarrow> serve db g sf st' buf' rs))"

definition main :: "unicode_db \<Rightarrow> environ \<Rightarrow> globals \<Rightarrow> world \<Rightarrow> state \<Rightarrow> ending \<times> state" where
  "main db env g w st0 =
     (let st = emit st0 [Print (Connecting (NICK g))]
      in if NO_CONNECT env = Some (str ''1'')
         then (let test_msg = getenv (TEST_MESSAGE env) (str ''TEST-CODE-1234-ABCD'');
                   st1 = emit st [Print (SelfTest test_msg)];
                   st2 = process_message db g test_msg st1
               in (Returned, emit st2 [Print SelfTestComplete]))
         else if connect_fails w then (Raised OSError, emit st [SockConnect])
         else (case send (send_fails w) (emit st [SockConnect]) (str ''PASS '' @ TOKEN g) of
                 Inl (e, s) \<Rightarrow> (Raised e, s)
               | Inr st2 \<Rightarrow>
                   (case send (send_fails w) st2 (str ''NICK '' @ NICK g) of
                      Inl (e, s) \<Rightarrow> (Raised e, s)
                    | Inr st3 \<Rightarrow>
                        (case send (send_fails w) st3 (str ''JOIN '' @ CHANNEL g) of
                           Inl (e, s) \<Rightarrow> (Raised e, s)
                         | Inr st4 \<Rightarrow>
                             serve db g (send_fails w)
                               (emit st4 [Print (Joined (CHANNEL g))]) [] (recvs w)))))"

text \<open>The whole run of \<^verbatim>\<open>python main.py\<close>: module initialisation, then \<^verbatim>\<open>main()\<close>.\<close>

definition program :: "unicode_db \<Rightarrow> environ \<Rightarrow> world \<Rightarrow> ending \<times> state" where
  "program db env w =
     (case module_init db env of
        Inl (es, e) \<Rightarrow> (Raised e, emit initial es)
      | Inr g \<Rightarrow> main db env g w initial)"

text \<open>The exit status of the process: 0 when \<^verbatim>\<open>main\<close> returns, the argument of
  \<^verbatim>\<open>sys.exit\<close>, 1 for an exception nobody catches; none while it waits in \<^verbatim>\<open>recv\<close>.\<close>

fun exit_status :: "ending \<Rightarrow> nat option" where
  "exit_status Returned = Some 0"
| "exit_status (Raised (SystemExit n)) = Some n"
| "exit_status (Raised e) = Some 1"
| "exit_status Blocked = None"

subsection \<open>The framer seen from the transport\<close>

text \<open>
  The lines the two loops split off for a sequence of received chunks, starting from the
  buffer \<open>buf\<close>: each chunk is decoded on its own, appended to the buffer, and the
  buffer is framed. A chunk that decodes to the empty text ends the loop.
\<close>

fun framer :: "pystr \<Rightarrow> byte list list \<Rightarrow> pystr list" where
  "framer buf [] = []"
| "framer buf (bs # rest) =
     (let data = utf8_decode_ignore bs
      in if data = [] then []
         else (case frame (buf @ data) of (ls, b) \<Rightarrow> ls @ framer b rest))"

text \<open>The same accumulation for chunks of text (what \<^verbatim>\<open>buf += data\<close> and the inner
  loop do once \<^verbatim>\<open>data\<close> is there).\<close>

fun feed :: "pystr \<Rightarrow> pystr list \<Rightarrow> pystr list \<times> pystr" where
  "feed buf [] = ([], buf)"
| "feed buf (d # ds) =
     (case frame (buf @ d) of (ls, b) \<Rightarrow> (case feed b ds of (ls', b') \<Rightarrow> (ls @ ls', b')))"

subsection \<open>The payload as the specification words it\<close>

text \<open>
  The specification speaks of the substring after the last occurrence of the
  delimiter. \<open>spec_payload_after_last\<close> follows these words (the first occurrence in
  the reversed line is the last one in the line); it is compared with what
  \<open>process_line\<close> forwards.
\<close>

definition spec_payload_after_last :: "pystr \<Rightarrow> pystr option" where
  "spec_payload_after_last line =
     (case find_str (rev line) (rev (str '' :'')) of
        None \<Rightarrow> None
      | Some j \<Rightarrow> Some (drop (length line - j) line))"

subsection \<open>Concurrent callers of \<^verbatim>\<open>handle_code\<close>\<close>

text \<open>
  The program calls \<^verbatim>\<open>handle_code\<close> from one thread; the lock is there for callers
  that would run side by side. For them the first five lines of \<^verbatim>\<open>handle_code\<close> are
  taken apart into their steps: acquiring the lock (possible only while nobody holds
  it), the test \<^verbatim>\<open>code not in seen_codes\<close>, \<^verbatim>\<open>seen_codes.add(code)\<close>,
  \<^verbatim>\<open>first = True\<close>, and releasing the lock. A caller is at one of these places and has
  its local \<^verbatim>\<open>first\<close>, \<^verbatim>\<open>False\<close> at the start; caller \<open>i\<close> was given the code
  \<open>code_of i\<close>.
\<close>

datatype pc = BeforeLock | LockedCheck | LockedAdd | LockedSetFirst | LockedRelease | AfterLock

record caller =
  at :: pc
  first :: bool

record shared =
  lock_holder :: "nat option"
  registry :: "pystr set"
  callers :: "nat \<Rightarrow> caller"

text \<open>One step of caller \<open>i\<close>; \<open>None\<close> when it cannot move (the lock is held by
  another caller, or it has left the block).\<close>

definition caller_step :: "(nat \<Rightarrow> pystr) \<Rightarrow> nat \<Rightarrow> shared \<Rightarrow> shared option" where
  "caller_step code_of i sh =
     (let c = callers sh i in
      case at c of
        BeforeLock \<Rightarrow>
          if lock_holder sh = None
          then Some (sh\<lparr>lock_holder := Some i, callers := (callers sh)(i := c\<lparr>at := LockedCheck\<rparr>)\<rparr>)
          else None
      | LockedCheck \<Rightarrow>
          Some (sh\<lparr>callers := (callers sh)
                  (i := c\<lparr>at := (if code_of i \<notin> registry sh then LockedAdd else LockedRelease)\<rparr>)\<rparr>)
      | LockedAdd \<Rightarrow>
          Some (sh\<lparr>registry := insert (code_of i) (registry sh),
                   callers := (callers sh)(i := c\<lparr>at := LockedSetFirst\<rparr>)\<rparr>)
      | LockedSetFirst \<Rightarrow>
          Some (sh\<lparr>callers := (callers sh)(i := c\<lparr>first := True, at := LockedRelease\<rparr>)\<rparr>)
      | LockedRelease \<Rightarrow>
          Some (sh\<lparr>lock_holder := None, callers := (callers sh)(i := c\<lparr>at := AfterLock\<rparr>)\<rparr>)
      | AfterLock \<Rightarrow> None)"

text \<open>A schedule names the caller that moves next; a caller that cannot move is passed
  over. Every interleaving of the callers is the run of some schedule.\<close>

fun run_callers :: "(nat \<Rightarrow> pystr) \<Rightarrow> nat list \<Rightarrow> shared \<Rightarrow> shared" where
  "run_callers code_of [] sh = sh"
| "run_callers code_of (i # sched) sh =
     (case caller_step code_of i sh of
        None \<Rightarrow> run_callers code_of sched sh
      | Some sh' \<Rightarrow> run_callers code_of sched sh')"

definition all_before :: "pystr set \<Rightarrow> shared" where
  "all_before seen =
     \<lparr>lock_holder = None, registry = seen,
      callers = (\<lambda>i. \<lparr>at = BeforeLock, first = False\<rparr>)\<rparr>"

text \<open>The facts that hold in every state the callers can reach: the lock is held by
  exactly the caller inside the block; a caller about to add has a code the registry
  lacks; a caller that has claimed a code (its \<^verbatim>\<open>first\<close> is or is about to be true) has
  put it into the registry, and no two callers have claimed the same code; every code
  that was added has its claimant.\<close>

definition in_section :: "caller \<Rightarrow> bool" where
  "in_section c = (at c = LockedCheck \<or> at c = LockedAdd \<or> at c = LockedSetFirst
                   \<or> at c = LockedRelease)"

definition claims :: "caller \<Rightarrow> bool" where
  "claims c = (first c \<or> at c = LockedSetFirst)"

definition registry_keeps :: "pystr set \<Rightarrow> shared \<Rightarrow> bool" where "registry_keeps seen sh = (seen \<subseteq> registry sh)"

definition lock_exclusive :: "shared \<Rightarrow> bool" where "lock_exclusive sh = (\<forall>i. in_section (callers sh i) = (lock_holder sh = Some i))"

definition adder_absent :: "(nat \<Rightarrow> pystr) \<Rightarrow> shared \<Rightarrow> bool" where "adder_absent code_of sh = (\<forall>i. at (callers sh i) = LockedAdd \<longrightarrow> code_of i \<notin> registry sh)"

definition claimed_in_registry :: "pystr set \<Rightarrow> (nat \<Rightarrow> pystr) \<Rightarrow> shared \<Rightarrow> bool" where "claimed_in_registry seen code_of sh = (\<forall>i. claims (callers sh i) \<longrightarrow> code_of i \<in> registry sh \<and> code_of i \<notin> seen)"

definition first_after_check :: "shared \<Rightarrow> bool" where "first_after_check sh = (\<forall>i. first (callers sh i) \<longrightarrow> at (callers sh i) = LockedRelease \<or> at (callers sh i) = AfterLock)"

definition checked_in_registry :: "(nat \<Rightarrow> pystr) \<Rightarrow> shared \<Rightarrow> bool" where "checked_in_registry code_of sh = (\<forall>i. at (callers sh i) = LockedRelease \<or> at (callers sh i) = AfterLock \<longrightarrow> code_of i \<in> registry sh)"

definition claim_unique :: "(nat \<Rightarrow> pystr) \<Rightarrow> shared \<Rightarrow> bool" where "claim_unique code_of sh = (\<forall>i j. claims (callers sh i) \<and> claims (callers sh j) \<and> code_of i = code_of j \<longrightarrow> i = j)"

definition added_has_claimant :: "pystr set \<Rightarrow> (nat \<Rightarrow> pystr) \<Rightarrow> shared \<Rightarrow> bool" where "added_has_claimant seen code_of sh = (\<forall>k. k \<in> registry sh \<and> k \<notin> seen \<longrightarrow> (\<exists>i. code_of i = k \<and> claims (callers sh i)))"

definition lock_inv :: "pystr set \<Rightarrow> (nat \<Rightarrow> pystr) \<Rightarrow> shared \<Rightarrow> bool" where
  "lock_inv seen code_of sh =
     (registry_keeps seen sh \<and> lock_exclusive sh \<and> adder_absent code_of sh \<and> claimed_in_registry seen code_of sh \<and> first_after_check sh \<and> checked_in_registry code_of sh
      \<and> claim_unique code_of sh \<and> added_has_claimant seen code_of sh)"

subsection \<open>Concrete inputs\<close>

text \<open>A database for runs on ASCII text, where it is never consulted.\<close>

definition ascii_only :: unicode_db where
  "ascii_only = \<lparr>uni_upper = (\<lambda>c. [c]), uni_alnum = (\<lambda>c. False)\<rparr>"

definition example_env :: environ where
  "example_env =
     \<lparr>TWITCH_NICK = Some (str ''watcher''), TWITCH_OAUTH = Some (str ''oauth:abc123''),
      TWITCH_CHANNEL = Some (str ''somechannel''), CODE_REGEX = Unset, AUTO_REDEEM_env = None,
      NO_CONNECT = None, TEST_MESSAGE = None\<rparr>"

definition example_globals :: globals where
  "example_globals =
     \<lparr>NICK = str ''watcher'', TOKEN = str ''oauth:abc123'', CHANNEL = str ''#somechannel'',
      code_regex = finditer ascii_only default_pattern, AUTO_REDEEM = False\<rparr>"

text \<open>A socket on which every \<^verbatim>\<open>send\<close> succeeds, and one on which the first raises.\<close>

definition no_send_fails :: "nat \<Rightarrow> bool" where
  "no_send_fails n = False"

definition first_send_fails :: "nat \<Rightarrow> bool" where
  "first_send_fails n = (n = 0)"


section \<open>Properties of the string operations and of the framer\<close>

lemma startswith_append: "startswith (p @ t) p"
  by (induction p) auto

lemma startswith_iff: "startswith s p \<longleftrightarrow> (\<exists>t. s = p @ t)"
proof (induction s p rule: startswith.induct)
  case (1 s) show ?case by simp
next
  case (2 p ps) show ?case by simp
next
  case (3 c cs p ps) then show ?case by auto
qed

lemma startswith_length: "startswith s p \<Longrightarrow> length p \<le> length s"
  by (auto simp: startswith_iff)

lemma startswith_append_long:
  "length p \<le> length s \<Longrightarrow> startswith (s @ t) p = startswith s p"
  by (induction s p rule: startswith.induct) auto

lemma find_str_Some_length: "find_str s sub = Some i \<Longrightarrow> i + length sub \<le> length s"
proof (induction s arbitrary: i)
  case Nil then show ?case by (auto split: if_splits)
next
  case (Cons c cs)
  show ?case
  proof (cases "startswith (c # cs) sub")
    case True
    with Cons.prems startswith_length [OF True] show ?thesis by simp
  next
    case False
    with Cons.prems obtain j where "find_str cs sub = Some j" "i = Suc j" by auto
    with Cons.IH show ?thesis by fastforce
  qed
qed

lemma find_str_append: "find_str s sub = Some i \<Longrightarrow> find_str (s @ t) sub = Some i"
proof (induction s arbitrary: i)
  case Nil
  then show ?case by (cases t) (auto split: if_splits)
next
  case (Cons c cs)
  show ?case
  proof (cases "startswith (c # cs) sub")
    case True
    from startswith_length [OF True] have "startswith ((c # cs) @ t) sub"
      using True by (simp only: startswith_append_long)
    with True Cons.prems show ?thesis by simp
  next
    case False
    with Cons.prems obtain j where j: "find_str cs sub = Some j" "i = Suc j" by auto
    from find_str_Some_length [OF j(1)] have "length sub \<le> length (c # cs)" by simp
    then have "startswith ((c # cs) @ t) sub = startswith (c # cs) sub"
      by (rule startswith_append_long)
    with False j Cons.IH [OF j(1)] show ?thesis by simp
  qed
qed

lemma find_str_CRLF_end:
  "find_str l CRLF = None \<Longrightarrow> find_str (l @ CRLF @ rest) CRLF = Some (length l)"
proof (induction l)
  case Nil
  show ?case by (simp add: CRLF_def)
next
  case (Cons c cs)
  from Cons.prems have ns: "\<not> startswith (c # cs) CRLF" and n: "find_str cs CRLF = None"
    by (auto split: if_splits)
  have "\<not> startswith ((c # cs) @ CRLF @ rest) CRLF"
    using ns by (cases cs) (auto simp: CRLF_def)
  with Cons.IH [OF n] show ?case by simp
qed

lemma split1_two: "contains sep s \<Longrightarrow> \<exists>line rest. split1 s sep = [line, rest]"
  by (auto simp: contains_def split1_def)

lemma frame_unfold:
  "find_str buf CRLF = Some i \<Longrightarrow>
     frame buf = (take i buf # fst (frame (drop (i + 2) buf)), snd (frame (drop (i + 2) buf)))"
  by (subst frame.simps) (simp add: contains_def split1_def CRLF_def split: prod.splits)

lemma frame_none: "find_str buf CRLF = None \<Longrightarrow> frame buf = ([], buf)"
  by (subst frame.simps) (simp add: contains_def)

lemma drain_unfold:
  "find_str buf CRLF = Some i \<Longrightarrow>
     drain db g sf st buf =
       (case process_line db g sf st (take i buf) of
          Inl x \<Rightarrow> Inl x
        | Inr st' \<Rightarrow> drain db g sf st' (drop (i + 2) buf))"
  by (subst drain.simps) (simp add: contains_def split1_def CRLF_def split: sum.splits)

lemma drain_none: "find_str buf CRLF = None \<Longrightarrow> drain db g sf st buf = Inr (st, buf)"
  by (subst drain.simps) (simp add: contains_def)

lemma drain_frame:
  "drain db g sf st buf =
     (case process_lines db g sf st (fst (frame buf)) of
        Inl x \<Rightarrow> Inl x
      | Inr st' \<Rightarrow> Inr (st', snd (frame buf)))"
proof (induction buf arbitrary: st rule: length_induct)
  case (1 buf)
  show ?case
  proof (cases "find_str buf CRLF")
    case None
    then show ?thesis by (simp add: drain_none frame_none)
  next
    case (Some i)
    define r where "r = drop (i + 2) buf"
    from find_str_Some_length [OF Some] have "length r < length buf"
      by (simp add: CRLF_def r_def)
    with 1 have IH: "drain db g sf s r =
      (case process_lines db g sf s (fst (frame r)) of
         Inl x \<Rightarrow> Inl x
       | Inr st' \<Rightarrow> Inr (st', snd (frame r)))" for s
      by blast
    have d: "drain db g sf st buf =
       (case process_line db g sf st (take i buf) of
          Inl x \<Rightarrow> Inl x
        | Inr st' \<Rightarrow> drain db g sf st' r)"
      using drain_unfold [OF Some] unfolding r_def .
    have f: "frame buf = (take i buf # fst (frame r), snd (frame r))"
      using frame_unfold [OF Some] unfolding r_def .
    show ?thesis
      unfolding d f by (cases "process_line db g sf st (take i buf)") (simp_all add: IH split: sum.splits)
  qed
qed

lemma frame_append:
  "frame (b @ c) = (fst (frame b) @ fst (frame (snd (frame b) @ c)), snd (frame (snd (frame b) @ c)))"
proof (induction b rule: length_induct)
  case (1 b)
  show ?case
  proof (cases "find_str b CRLF")
    case None
    then show ?thesis by (simp add: frame_none)
  next
    case (Some i)
    from find_str_Some_length [OF Some] have len: "i + 2 \<le> length b"
      by (simp add: CRLF_def)
    then have "length (drop (i + 2) b) < length b" by simp
    with 1 have IH: "frame (drop (i + 2) b @ c) =
      (fst (frame (drop (i + 2) b)) @ fst (frame (snd (frame (drop (i + 2) b)) @ c)),
       snd (frame (snd (frame (drop (i + 2) b)) @ c)))" by blast
    from find_str_append [OF Some] have "find_str (b @ c) CRLF = Some i" .
    then have "frame (b @ c) =
      (take i (b @ c) # fst (frame (drop (i + 2) (b @ c))), snd (frame (drop (i + 2) (b @ c))))"
      by (rule frame_unfold)
    with len IH Some show ?thesis by (simp add: frame_unfold)
  qed
qed

lemma frame_line:
  "\<not> contains CRLF l \<Longrightarrow> frame (l @ CRLF @ rest) = (l # fst (frame rest), snd (frame rest))"
proof -
  assume "\<not> contains CRLF l"
  then have "find_str (l @ CRLF @ rest) CRLF = Some (length l)"
    by (simp add: contains_def find_str_CRLF_end)
  from frame_unfold [OF this] show ?thesis by (simp add: CRLF_def)
qed

lemma drain_line:
  "\<not> contains CRLF l \<Longrightarrow>
     drain db g sf st (l @ CRLF @ rest) =
       (case process_line db g sf st l of
          Inl x \<Rightarrow> Inl x
        | Inr st' \<Rightarrow> drain db g sf st' rest)"
proof -
  assume "\<not> contains CRLF l"
  then have "find_str (l @ CRLF @ rest) CRLF = Some (length l)"
    by (simp add: contains_def find_str_CRLF_end)
  from drain_unfold [OF this] show ?thesis by (simp add: CRLF_def split: sum.splits)
qed

lemma not_contains_Nil: "\<not> contains CRLF []"
  by (simp add: contains_def CRLF_def)

lemma handle_code_trace: "\<exists>es. trace (handle_code g c st) = trace st @ es"
  by (simp add: handle_code_def classify_def emit_def)

lemma handle_codes_trace:
  "\<exists>es. trace (foldl (\<lambda>s code. handle_code g code s) st cs) = trace st @ es"
proof (induction cs arbitrary: st)
  case Nil
  show ?case by simp
next
  case (Cons c cs)
  obtain e1 where e1: "trace (handle_code g c st) = trace st @ e1"
    using handle_code_trace by blast
  obtain e2 where
    "trace (foldl (\<lambda>s code. handle_code g code s) (handle_code g c st) cs)
       = trace (handle_code g c st) @ e2"
    using Cons.IH by blast
  with e1 show ?case by simp
qed

lemma process_message_trace:
  "\<exists>es. trace (process_message db g msg st) = trace st @ es"
proof -
  obtain es where
    "trace (foldl (\<lambda>s code. handle_code g code s) (emit st [CallProcessMessage msg])
        (extract_codes db g msg)) = trace (emit st [CallProcessMessage msg]) @ es"
    using handle_codes_trace by blast
  then show ?thesis by (simp add: process_message_def emit_def)
qed

lemma send_trace: "\<exists>es. trace (line_state (send sf st msg)) = trace st @ es"
  by (simp add: send_def line_state_def emit_def)

lemma process_line_trace:
  "\<exists>es. trace (line_state (process_line db g sf st line)) = trace st @ es"
proof -
  have "\<exists>es. trace (line_state (Inr (process_message db g m st))) = trace st @ es" for m
    using process_message_trace [of db g m st] by (simp add: line_state_def)
  moreover have "\<exists>es. trace (line_state (Inr st)) = trace st @ es"
    by (simp add: line_state_def)
  ultimately show ?thesis
    using send_trace [of sf st] by (simp add: process_line_def Let_def)
qed

lemma process_lines_trace:
  "\<exists>es. trace (line_state (process_lines db g sf st ls)) = trace st @ es"
proof (induction ls arbitrary: st)
  case Nil
  show ?case by (simp add: line_state_def)
next
  case (Cons l ls)
  obtain e1 where e1: "trace (line_state (process_line db g sf st l)) = trace st @ e1"
    using process_line_trace by blast
  show ?case
  proof (cases "process_line db g sf st l")
    case (Inl x)
    with e1 show ?thesis by simp
  next
    case (Inr st')
    obtain e2 where "trace (line_state (process_lines db g sf st' ls)) = trace st' @ e2"
      using Cons.IH by blast
    with Inr e1 show ?thesis by (simp add: line_state_def)
  qed
qed

lemma drain_trace: "\<exists>es. trace (drain_state (drain db g sf st buf)) = trace st @ es"
proof -
  have "drain_state (drain db g sf st buf) = line_state (process_lines db g sf st (fst (frame buf)))"
    by (simp add: drain_frame drain_state_def line_state_def split: sum.splits)
  then show ?thesis by (simp add: process_lines_trace)
qed

section \<open>The serve loop, line by line\<close>

text \<open>
  C10: an empty line is discarded before the keepalive check. The body of the loop
  leaves the state as it was on the empty line: no acknowledgment is sent and
  \<^verbatim>\<open>process_message\<close> is not called. In the buffer, a terminator at the front, or one
  that follows the terminator of a line \<open>l\<close>, contributes nothing: the loop goes on with
  what comes after it (after \<open>l\<close>, unless \<open>l\<close> has raised).
\<close>

theorem empty_line_discarded:
  "process_line db g sf st [] = Inr st
   \<and> drain db g sf st (CRLF @ rest) = drain db g sf st rest
   \<and> (\<not> contains CRLF l \<longrightarrow>
        drain db g sf st (l @ CRLF @ CRLF @ rest) =
          (case process_line db g sf st l of
             Inl x \<Rightarrow> Inl x
           | Inr st' \<Rightarrow> drain db g sf st' rest))"
proof -
  have a: "process_line db g sf st [] = Inr st" by (simp add: process_line_def)
  have b: "drain db g sf s (CRLF @ r) = drain db g sf s r" for s r
    using drain_line [OF not_contains_Nil, of db g sf s r] by (simp add: process_line_def)
  have c: "drain db g sf st (l @ CRLF @ CRLF @ rest) =
          (case process_line db g sf st l of
             Inl x \<Rightarrow> Inl x
           | Inr st' \<Rightarrow> drain db g sf st' rest)"
    if "\<not> contains CRLF l"
    using drain_line [OF that, of db g sf st "CRLF @ rest"] b
    by (cases "process_line db g sf st l") simp_all
  from a b c show ?thesis by blast
qed

text \<open>The empty line after a keepalive line, on a concrete buffer.\<close>

theorem empty_line_discarded_witness:
  "\<not> contains CRLF (str ''PING'')
   \<and> drain ascii_only example_globals no_send_fails initial (str ''PING'' @ CRLF @ CRLF @ [])
     = Inr (emit initial [SockSend (str ''PONG :tmi.twitch.tv'' @ CRLF)], [])"
proof -
  have h: "\<not> contains CRLF (str ''PING'')" by code_simp
  have p: "process_line ascii_only example_globals no_send_fails initial (str ''PING'')
      = Inr (emit initial [SockSend (str ''PONG :tmi.twitch.tv'' @ CRLF)])"
    by (simp add: process_line_def send_def str_def no_send_fails_def encodable_def CRLF_def)
  have d: "drain ascii_only example_globals no_send_fails s [] = Inr (s, [])" for s
    by (simp add: drain_none CRLF_def)
  from empty_line_discarded [of ascii_only example_globals no_send_fails initial "[]"
      "str ''PING''"] h p d
  show ?thesis by simp
qed

text \<open>
  C4: a line that begins with \<^verbatim>\<open>PING\<close> makes the session call \<^verbatim>\<open>sock.send\<close> once, with
  the line \<^verbatim>\<open>PONG :tmi.twitch.tv\<close>, and do nothing else; the rest of the buffer, however
  many lines it holds, is processed from the state in which the acknowledgment has been
  sent, so the acknowledgment precedes everything the later lines cause. (If the call
  raises, the loop ends there and no later line is processed.)
\<close>

theorem keepalive_acknowledged_first:
  assumes "startswith line (str ''PING'')" and "\<not> contains CRLF line"
  shows "process_line db g sf st line
        = (if sf (sends_made st)
           then Inl (OSError, emit st [SockSend (str ''PONG :tmi.twitch.tv'' @ CRLF)])
           else Inr (emit st [SockSend (str ''PONG :tmi.twitch.tv'' @ CRLF)]))
    \<and> drain db g sf st (line @ CRLF @ rest)
        = (if sf (sends_made st)
           then Inl (OSError, emit st [SockSend (str ''PONG :tmi.twitch.tv'' @ CRLF)])
           else drain db g sf (emit st [SockSend (str ''PONG :tmi.twitch.tv'' @ CRLF)]) rest)
    \<and> (\<exists>es. trace (drain_state (drain db g sf st (line @ CRLF @ rest)))
              = trace st @ SockSend (str ''PONG :tmi.twitch.tv'' @ CRLF) # es)"
proof -
  let ?pong = "SockSend (str ''PONG :tmi.twitch.tv'' @ CRLF)"
  from assms(1) have ne: "line \<noteq> []" by (auto simp: str_def)
  have enc: "list_all encodable (str ''PONG :tmi.twitch.tv'' @ CRLF)"
    by (simp add: str_def CRLF_def encodable_def)
  from ne assms(1) enc have pl:
    "process_line db g sf st line
       = (if sf (sends_made st) then Inl (OSError, emit st [?pong]) else Inr (emit st [?pong]))"
    by (simp add: process_line_def send_def)
  from drain_line [OF assms(2), of db g sf st rest] pl have dr:
    "drain db g sf st (line @ CRLF @ rest)
       = (if sf (sends_made st) then Inl (OSError, emit st [?pong])
          else drain db g sf (emit st [?pong]) rest)"
    by simp
  have "\<exists>es. trace (drain_state (drain db g sf st (line @ CRLF @ rest)))
      = trace st @ ?pong # es"
  proof (cases "sf (sends_made st)")
    case True
    with dr show ?thesis by (simp add: drain_state_def emit_def)
  next
    case False
    obtain es where
      "trace (drain_state (drain db g sf (emit st [?pong]) rest)) = trace (emit st [?pong]) @ es"
      using drain_trace by blast
    with dr False show ?thesis by (simp add: emit_def)
  qed
  with pl dr show ?thesis by blast
qed

text \<open>A keepalive line followed by a chat line in one buffer.\<close>

theorem keepalive_acknowledged_first_witness:
  "startswith (str ''PING :tmi.twitch.tv'') (str ''PING'')
   \<and> \<not> contains CRLF (str ''PING :tmi.twitch.tv'')
   \<and> trace (drain_state (drain ascii_only example_globals no_send_fails initial
        (str ''PING :tmi.twitch.tv'' @ CRLF @ str '':a!a@a PRIVMSG #c :hello'' @ CRLF)))
     = [SockSend (str ''PONG :tmi.twitch.tv'' @ CRLF), CallProcessMessage (str ''hello'')]"
proof -
  have h1: "startswith (str ''PING :tmi.twitch.tv'') (str ''PING'')" by code_simp
  have h2: "\<not> contains CRLF (str ''PING :tmi.twitch.tv'')" by code_simp
  have e: "trace (drain_state (drain ascii_only example_globals no_send_fails
             (emit initial [SockSend (str ''PONG :tmi.twitch.tv'' @ CRLF)])
             (str '':a!a@a PRIVMSG #c :hello'' @ CRLF)))
      = [SockSend (str ''PONG :tmi.twitch.tv'' @ CRLF), CallProcessMessage (str ''hello'')]"
    by code_simp
  from keepalive_acknowledged_first [OF h1 h2, of ascii_only example_globals no_send_fails
      initial "str '':a!a@a PRIVMSG #c :hello'' @ CRLF"] e h1 h2
  show ?thesis by (simp add: no_send_fails_def)
qed

section \<open>Empty lines and the trailing fragment\<close>

lemma frame_lines_fragment:
  "list_all (\<lambda>l. \<not> contains CRLF l) ls \<Longrightarrow> \<not> contains CRLF t \<Longrightarrow>
     frame (concat (map (\<lambda>l. l @ CRLF) ls) @ t) = (ls, t)"
proof (induction ls)
  case Nil
  then show ?case by (simp add: frame_none contains_def)
next
  case (Cons l ls)
  then have "frame (concat (map (\<lambda>l. l @ CRLF) ls) @ t) = (ls, t)" by simp
  moreover from Cons.prems have "\<not> contains CRLF l" by simp
  ultimately show ?case
    using frame_line [of l "concat (map (\<lambda>l. l @ CRLF) ls) @ t"] by simp
qed

text \<open>
  C6: when a terminator follows the terminator of a line \<open>l\<close>, the framer yields \<open>l\<close> and
  then the empty line (it is the consumer, \<open>process_line\<close>, that ignores it). A text
  made of terminated lines \<open>ls\<close> and an unterminated fragment \<open>t\<close> yields exactly
  \<open>ls\<close>: the fragment stays in the buffer. At the end of the stream (a read of zero
  bytes, or a reset) the loop returns without looking at the buffer, so the fragment is
  never a line.
\<close>

theorem empty_line_framed_fragment_dropped:
  "(\<not> contains CRLF l \<longrightarrow>
      frame (l @ CRLF @ CRLF @ rest) = (l # [] # fst (frame rest), snd (frame rest)))
   \<and> (list_all (\<lambda>l. \<not> contains CRLF l) ls \<and> \<not> contains CRLF t \<longrightarrow>
      frame (concat (map (\<lambda>l. l @ CRLF) ls) @ t) = (ls, t))
   \<and> serve db g sf st buf (RecvBytes [] # rs) = (Returned, emit st [Print Disconnected])
   \<and> serve db g sf st buf (RecvReset # rs) = (Returned, emit st [Print ConnectionReset])"
proof -
  have a: "frame (l @ CRLF @ CRLF @ rest) = (l # [] # fst (frame rest), snd (frame rest))"
    if "\<not> contains CRLF l"
    using frame_line [OF that, of "CRLF @ rest"] frame_line [OF not_contains_Nil, of rest]
    by simp
  have b: "serve db g sf st buf (RecvBytes [] # rs) = (Returned, emit st [Print Disconnected])"
    by simp
  from a b frame_lines_fragment show ?thesis by auto
qed

text \<open>An empty line between two lines, and a fragment after three lines.\<close>

theorem empty_line_framed_fragment_dropped_witness:
  "\<not> contains CRLF (str ''a'')
   \<and> frame (str ''a'' @ CRLF @ CRLF @ str ''b'') = ([str ''a'', []], str ''b'')
   \<and> list_all (\<lambda>l. \<not> contains CRLF l) [str ''a'', [], str ''c''] \<and> \<not> contains CRLF (str ''tail'')
   \<and> frame (concat (map (\<lambda>l. l @ CRLF) [str ''a'', [], str ''c'']) @ str ''tail'')
        = ([str ''a'', [], str ''c''], str ''tail'')"
proof -
  have h1: "\<not> contains CRLF (str ''a'')" by code_simp
  have h2: "list_all (\<lambda>l. \<not> contains CRLF l) [str ''a'', [], str ''c'']" by code_simp
  have h3: "\<not> contains CRLF (str ''tail'')" by code_simp
  have f: "frame (str ''b'') = ([], str ''b'')" by code_simp
  from empty_line_framed_fragment_dropped
    [of "str ''a''" "str ''b''" "[str ''a'', [], str ''c'']" "str ''tail''"] h1 h2 h3 f
  show ?thesis by simp
qed

section \<open>The payload of a content line\<close>

text \<open>What \<open>process_line\<close> forwards: the text after the first occurrence of the
  delimiter, and nothing when the delimiter is absent.\<close>

lemma process_line_payload:
  "line \<noteq> [] \<Longrightarrow> \<not> startswith line (str ''PING'') \<Longrightarrow>
     process_line db g sf st line =
       (case find_str line (str '' :'') of
          None \<Rightarrow> Inr st
        | Some i \<Rightarrow> Inr (process_message db g (drop (i + 2) line) st))"
  by (simp add: process_line_def split1_def Let_def str_def split: option.splits)

text \<open>
  C1: the payload is specified as what follows the last occurrence of the delimiter
  \<^verbatim>\<open>' :'\<close>. On a chat line whose message itself contains the delimiter,
  \<^verbatim>\<open>line.split(' :', 1)\<close> forwards what follows the first occurrence: here the whole
  message, in which the code is then detected, where the specified payload is the
  single character after the last delimiter.
\<close>

theorem payload_after_first_delimiter:
  "process_line ascii_only example_globals sf initial
      (str '':nick!nick@nick.tmi.twitch.tv PRIVMSG #chan :code ABCD-1234-EFGH-5678 :)'')
     = Inr (process_message ascii_only example_globals (str ''code ABCD-1234-EFGH-5678 :)'')
         initial)
   \<and> trace (process_message ascii_only example_globals (str ''code ABCD-1234-EFGH-5678 :)'')
         initial)
     = [CallProcessMessage (str ''code ABCD-1234-EFGH-5678 :)''),
        CopyToClipboard (str ''ABCD-1234-EFGH-5678''),
        Print (CodeDetected (str ''ABCD-1234-EFGH-5678'')), Beep]
   \<and> spec_payload_after_last
        (str '':nick!nick@nick.tmi.twitch.tv PRIVMSG #chan :code ABCD-1234-EFGH-5678 :)'')
     = Some (str '')'')"
proof -
  let ?line = "str '':nick!nick@nick.tmi.twitch.tv PRIVMSG #chan :code ABCD-1234-EFGH-5678 :)''"
  have n: "?line \<noteq> []" by (simp add: str_def)
  have p: "\<not> startswith ?line (str ''PING'')" by code_simp
  have f: "find_str ?line (str '' :'') = Some 43" by code_simp
  have d: "drop (43 + 2) ?line = str ''code ABCD-1234-EFGH-5678 :)''" by code_simp
  have a: "process_line ascii_only example_globals sf initial ?line
     = Inr (process_message ascii_only example_globals (str ''code ABCD-1234-EFGH-5678 :)'')
         initial)"
    by (simp only: process_line_payload [OF n p] f d option.case)
  have t: "trace (process_message ascii_only example_globals
        (str ''code ABCD-1234-EFGH-5678 :)'') initial)
     = [CallProcessMessage (str ''code ABCD-1234-EFGH-5678 :)''),
        CopyToClipboard (str ''ABCD-1234-EFGH-5678''),
        Print (CodeDetected (str ''ABCD-1234-EFGH-5678'')), Beep]"
    by code_simp
  have b: "spec_payload_after_last ?line = Some (str '')'')"
    by code_simp
  from a t b show ?thesis by simp
qed

section \<open>Extraction with the default pattern\<close>

text \<open>
  C5: with the default pattern, upper-casing the payload and listing the matches gives
  the one code of \<^verbatim>\<open>"ABCD-1234-EFGH-5678 grab it"\<close>, nothing for
  \<^verbatim>\<open>"no code here"\<close>, and the same code twice for the payload that holds it twice.
\<close>

theorem extract_default_pattern_examples:
  "extract_codes db (g\<lparr>code_regex := finditer db default_pattern\<rparr>)
      (str ''ABCD-1234-EFGH-5678 grab it'') = [str ''ABCD-1234-EFGH-5678'']
   \<and> extract_codes db (g\<lparr>code_regex := finditer db default_pattern\<rparr>) (str ''no code here'') = []
   \<and> extract_codes db (g\<lparr>code_regex := finditer db default_pattern\<rparr>)
      (str ''X1X1-X1X1-X1X1-X1X1 and X1X1-X1X1-X1X1-X1X1'')
     = [str ''X1X1-X1X1-X1X1-X1X1'', str ''X1X1-X1X1-X1X1-X1X1'']"
proof -
  have a: "finditer db default_pattern (upper db (str ''ABCD-1234-EFGH-5678 grab it''))
      = [str ''ABCD-1234-EFGH-5678'']"
    by code_simp
  have b: "finditer db default_pattern (upper db (str ''no code here'')) = []"
    by code_simp
  have c: "finditer db default_pattern
      (upper db (str ''X1X1-X1X1-X1X1-X1X1 and X1X1-X1X1-X1X1-X1X1''))
      = [str ''X1X1-X1X1-X1X1-X1X1'', str ''X1X1-X1X1-X1X1-X1X1'']"
    by code_simp
  from a b c show ?thesis by (simp add: extract_codes_def)
qed

section \<open>The registry of seen codes\<close>

lemma handle_code_seen: "seen_codes (handle_code g c st) = insert c (seen_codes st)"
  by (auto simp: handle_code_def classify_def emit_def)

lemma handle_codes_seen:
  "seen_codes (foldl (\<lambda>s c. handle_code g c s) st cs) = seen_codes st \<union> set cs"
  by (induction cs arbitrary: st) (auto simp: handle_code_seen)

lemma classify_first: "fst (classify c seen) = (c \<notin> seen)"
  by (simp add: classify_def)

lemma handle_code_step:
  "trace (handle_code g c s)
     = trace s @ (if c \<notin> seen_codes s
                  then [CopyToClipboard c, Print (CodeDetected c), Beep]
                       @ (if AUTO_REDEEM g then [FocusAndType c] else [])
                  else [Print (CodeRepeat c)])"
  by (simp add: handle_code_def classify_def emit_def)

text \<open>
  C3: in any sequence of calls of \<^verbatim>\<open>handle_code\<close>, the call at position \<open>i\<close> finds
  \<^verbatim>\<open>first\<close> true exactly when its code was neither in the registry at the start nor
  the code of an earlier call; it then runs the first-seen branch, and the repeat branch
  otherwise. Each call leaves the registry as it was plus its code, so the registry
  only grows, and a code enters it at the first call on it and at no later one. The
  check and the insertion are the one step \<open>classify\<close>, the block under the lock.
\<close>

theorem first_seen_then_repeat:
  assumes "i < length cs"
  shows "fst (classify (cs ! i) (seen_codes (foldl (\<lambda>s c. handle_code g c s) st (take i cs))))
           = (cs ! i \<notin> seen_codes st \<and> cs ! i \<notin> set (take i cs))
    \<and> trace (handle_code g (cs ! i) (foldl (\<lambda>s c. handle_code g c s) st (take i cs)))
        = trace (foldl (\<lambda>s c. handle_code g c s) st (take i cs))
          @ (if cs ! i \<notin> seen_codes st \<and> cs ! i \<notin> set (take i cs)
             then [CopyToClipboard (cs ! i), Print (CodeDetected (cs ! i)), Beep]
                  @ (if AUTO_REDEEM g then [FocusAndType (cs ! i)] else [])
             else [Print (CodeRepeat (cs ! i))])
    \<and> seen_codes (handle_code g (cs ! i) (foldl (\<lambda>s c. handle_code g c s) st (take i cs)))
        = insert (cs ! i) (seen_codes st \<union> set (take i cs))
    \<and> seen_codes (foldl (\<lambda>s c. handle_code g c s) st cs) = seen_codes st \<union> set cs"
proof -
  define si where "si = foldl (\<lambda>s c. handle_code g c s) st (take i cs)"
  have seen: "seen_codes si = seen_codes st \<union> set (take i cs)"
    unfolding si_def by (rule handle_codes_seen)
  then have absent:
    "(cs ! i \<notin> seen_codes si) = (cs ! i \<notin> seen_codes st \<and> cs ! i \<notin> set (take i cs))"
    by simp
  have a: "fst (classify (cs ! i) (seen_codes si))
      = (cs ! i \<notin> seen_codes st \<and> cs ! i \<notin> set (take i cs))"
    by (simp only: classify_first absent)
  have b: "trace (handle_code g (cs ! i) si)
      = trace si @ (if cs ! i \<notin> seen_codes st \<and> cs ! i \<notin> set (take i cs)
             then [CopyToClipboard (cs ! i), Print (CodeDetected (cs ! i)), Beep]
                  @ (if AUTO_REDEEM g then [FocusAndType (cs ! i)] else [])
             else [Print (CodeRepeat (cs ! i))])"
    by (simp only: handle_code_step absent)
  have c: "seen_codes (handle_code g (cs ! i) si)
      = insert (cs ! i) (seen_codes st \<union> set (take i cs))"
    by (simp only: handle_code_seen seen)
  have d: "seen_codes (foldl (\<lambda>s c. handle_code g c s) st cs) = seen_codes st \<union> set cs"
    by (rule handle_codes_seen)
  from a b c d show ?thesis unfolding si_def by blast
qed

text \<open>The same code twice, from the empty registry.\<close>

theorem first_seen_then_repeat_witness:
  "(1::nat) < length [str ''AAAA-1111-BBBB-2222'', str ''AAAA-1111-BBBB-2222'']
   \<and> trace (foldl (\<lambda>s c. handle_code example_globals c s) initial
        [str ''AAAA-1111-BBBB-2222'', str ''AAAA-1111-BBBB-2222''])
      = [CopyToClipboard (str ''AAAA-1111-BBBB-2222''),
         Print (CodeDetected (str ''AAAA-1111-BBBB-2222'')), Beep,
         Print (CodeRepeat (str ''AAAA-1111-BBBB-2222''))]
   \<and> seen_codes (foldl (\<lambda>s c. handle_code example_globals c s) initial
        [str ''AAAA-1111-BBBB-2222'', str ''AAAA-1111-BBBB-2222''])
      = {str ''AAAA-1111-BBBB-2222''}"
proof -
  have h: "(1::nat) < length [str ''AAAA-1111-BBBB-2222'', str ''AAAA-1111-BBBB-2222'']"
    by simp
  have ag: "\<not> AUTO_REDEEM example_globals" by (simp add: example_globals_def)
  have t0: "trace (handle_code example_globals (str ''AAAA-1111-BBBB-2222'') initial)
      = [CopyToClipboard (str ''AAAA-1111-BBBB-2222''),
         Print (CodeDetected (str ''AAAA-1111-BBBB-2222'')), Beep]"
    by (simp add: handle_code_step initial_def ag)
  from first_seen_then_repeat [OF h, of example_globals initial] t0 ag
  show ?thesis by (simp add: initial_def)
qed

section \<open>Framing and the chunks of the transport\<close>

text \<open>On text, the lines depend on the concatenation of the chunks only: a terminator
  may be cut anywhere.\<close>

lemma frame_rest_unterminated: "\<not> contains CRLF (snd (frame buf))"
proof (induction buf rule: length_induct)
  case (1 buf)
  show ?case
  proof (cases "find_str buf CRLF")
    case None
    then show ?thesis by (simp add: frame_none contains_def)
  next
    case (Some i)
    from find_str_Some_length [OF Some] have "length (drop (i + 2) buf) < length buf"
      by (simp add: CRLF_def)
    with 1 have "\<not> contains CRLF (snd (frame (drop (i + 2) buf)))" by blast
    with Some show ?thesis by (simp add: frame_unfold)
  qed
qed

lemma feed_concat: "\<not> contains CRLF buf \<Longrightarrow> feed buf ds = frame (buf @ concat ds)"
proof (induction ds arbitrary: buf)
  case Nil
  then show ?case by (simp add: frame_none contains_def)
next
  case (Cons d ds)
  have "frame ((buf @ d) @ concat ds)
      = (fst (frame (buf @ d)) @ fst (frame (snd (frame (buf @ d)) @ concat ds)),
         snd (frame (snd (frame (buf @ d)) @ concat ds)))"
    by (rule frame_append)
  with Cons.IH [OF frame_rest_unterminated, of "buf @ d"] show ?case
    by (simp add: split_beta)
qed

lemma text_chunking_irrelevant:
  "\<not> contains CRLF buf \<Longrightarrow> concat ds1 = concat ds2 \<Longrightarrow> feed buf ds1 = feed buf ds2"
  by (simp add: feed_concat)

lemma framer_feed:
  "list_all (\<lambda>bs. utf8_decode_ignore bs \<noteq> []) chunks \<Longrightarrow>
     framer buf chunks = fst (feed buf (map utf8_decode_ignore chunks))"
  by (induction chunks arbitrary: buf) (auto simp: Let_def split_beta)

lemma decode_ascii: "list_all (\<lambda>b. b < 0x80) bs \<Longrightarrow> utf8_decode_ignore bs = map unat bs"
  by (induction bs) auto

lemma framer_ascii:
  assumes "list_all (\<lambda>bs. bs \<noteq> [] \<and> list_all (\<lambda>b. b < 0x80) bs) cs"
    and "\<not> contains CRLF buf"
  shows "framer buf cs = fst (frame (buf @ map unat (concat cs)))"
proof -
  from assms(1) have ne: "list_all (\<lambda>bs. utf8_decode_ignore bs \<noteq> []) cs"
    by (induction cs) (auto simp: decode_ascii)
  from assms(1) have dec: "concat (map utf8_decode_ignore cs) = map unat (concat cs)"
    by (induction cs) (auto simp: decode_ascii)
  from framer_feed [OF ne] have "framer buf cs = fst (feed buf (map utf8_decode_ignore cs))" .
  also have "\<dots> = fst (frame (buf @ concat (map utf8_decode_ignore cs)))"
    by (simp only: feed_concat [OF assms(2)])
  finally show ?thesis by (simp only: dec)
qed

lemma framer_ascii_chunking:
  assumes "list_all (\<lambda>bs. bs \<noteq> [] \<and> list_all (\<lambda>b. b < 0x80) bs) cs1"
    and "list_all (\<lambda>bs. bs \<noteq> [] \<and> list_all (\<lambda>b. b < 0x80) bs) cs2"
    and "concat cs1 = concat cs2"
  shows "framer [] cs1 = framer [] cs2"
  using assms by (simp add: framer_ascii not_contains_Nil)

text \<open>A keepalive line cut inside the terminator and in one piece.\<close>

lemma framer_ascii_chunking_witness:
  "list_all (\<lambda>bs. bs \<noteq> [] \<and> list_all (\<lambda>b. b < 0x80) bs)
      [[0x50, 0x49], [0x4E, 0x47, 0x0D], [0x0A :: byte]]
   \<and> list_all (\<lambda>bs. bs \<noteq> [] \<and> list_all (\<lambda>b. b < 0x80) bs)
      [[0x50, 0x49, 0x4E, 0x47, 0x0D, 0x0A :: byte]]
   \<and> framer [] [[0x50, 0x49], [0x4E, 0x47, 0x0D], [0x0A]] = [str ''PING'']
   \<and> framer [] [[0x50, 0x49, 0x4E, 0x47, 0x0D, 0x0A]] = [str ''PING'']"
proof -
  have h1: "list_all (\<lambda>bs. bs \<noteq> [] \<and> list_all (\<lambda>b. b < 0x80) bs)
      [[0x50, 0x49], [0x4E, 0x47, 0x0D], [0x0A :: byte]]"
    by simp
  have h2: "list_all (\<lambda>bs. bs \<noteq> [] \<and> list_all (\<lambda>b. b < 0x80) bs)
      [[0x50, 0x49, 0x4E, 0x47, 0x0D, 0x0A :: byte]]"
    by simp
  have h3: "concat [[0x50, 0x49], [0x4E, 0x47, 0x0D], [0x0A :: byte]]
      = concat [[0x50, 0x49, 0x4E, 0x47, 0x0D, 0x0A]]"
    by simp
  have e: "framer [] [[0x50, 0x49, 0x4E, 0x47, 0x0D, 0x0A]] = [str ''PING'']"
    by code_simp
  from framer_ascii_chunking [OF h1 h2 h3] e h1 h2 show ?thesis by simp
qed

text \<open>
  C2: equal concatenations of non-empty chunks should give the same lines. Each chunk
  is decoded on its own with \<^verbatim>\<open>errors='ignore'\<close>, before it reaches the buffer, so a
  character whose bytes fall into two chunks is lost: \<^verbatim>\<open>b'a\xc3\xa9\r\n'\<close> in one
  piece yields the line of two characters, and cut after \<^verbatim>\<open>\xc3\<close> it yields the
  line \<^verbatim>\<open>'a'\<close>. (For chunks of ASCII bytes the lines are the same however the bytes
  are cut, as shown above.)
\<close>

theorem framer_split_character:
  "concat [[0x61, 0xC3], [0xA9, 0x0D, 0x0A]] = concat [[0x61, 0xC3, 0xA9, 0x0D, 0x0A :: byte]]
   \<and> framer [] [[0x61, 0xC3, 0xA9, 0x0D, 0x0A]] = [[0x61, 0xE9]]
   \<and> framer [] [[0x61, 0xC3], [0xA9, 0x0D, 0x0A]] = [[0x61]]"
proof -
  have a: "framer [] [[0x61, 0xC3, 0xA9, 0x0D, 0x0A]] = [[0x61, 0xE9]]" by code_simp
  have b: "framer [] [[0x61, 0xC3], [0xA9, 0x0D, 0x0A]] = [[0x61]]" by code_simp
  from a b show ?thesis by simp
qed

text \<open>The outer loop processes the lines of \<open>framer\<close>, in order, up to the first
  exception.\<close>

lemma process_lines_append:
  "process_lines db g sf st (ls @ ls') =
     (case process_lines db g sf st ls of
        Inl x \<Rightarrow> Inl x
      | Inr st' \<Rightarrow> process_lines db g sf st' ls')"
  by (induction ls arbitrary: st) (simp_all split: sum.splits)


lemma serve_framer:
  "serve db g sf st buf (map RecvBytes chunks @ [RecvBytes []]) =
     (case process_lines db g sf st (framer buf chunks) of
        Inl (e, s) \<Rightarrow> (Raised e, s)
      | Inr st' \<Rightarrow> (Returned, emit st' [Print Disconnected]))"
proof (induction chunks arbitrary: st buf)
  case Nil
  show ?case by simp
next
  case (Cons c cs)
  show ?case
  proof (cases "utf8_decode_ignore c = []")
    case True
    then show ?thesis by simp
  next
    case False
    let ?d = "utf8_decode_ignore c"
    let ?b = "snd (frame (buf @ ?d))"
    show ?thesis
    proof (cases "process_lines db g sf st (fst (frame (buf @ ?d)))")
      case (Inl x)
      with False show ?thesis
        by (cases x) (simp add: drain_frame process_lines_append split_beta Let_def)
    next
      case (Inr st')
      with False Cons.IH [of st' ?b] show ?thesis
        by (simp add: drain_frame process_lines_append split_beta Let_def)
    qed
  qed
qed


text \<open>A chunk that is not empty but decodes to the empty text ends the loop like a
  closed connection, whatever would have come after it.\<close>

lemma undecodable_chunk_ends_loop:
  "serve db g sf st buf (RecvBytes [0xA9] # rs) = (Returned, emit st [Print Disconnected])"
  by (simp add: is_continuation_def)





section \<open>The run of the process\<close>

lemma module_init_ok:
  assumes "strip (getenv (TWITCH_NICK env) []) \<noteq> []"
    and "strip (getenv (TWITCH_OAUTH env) []) \<noteq> []"
    and "strip (getenv (TWITCH_CHANNEL env) []) \<noteq> []"
    and "startswith (strip (getenv (TWITCH_OAUTH env) [])) (str ''oauth:'')"
    and "CODE_REGEX env \<noteq> Malformed"
  shows "\<exists>g. module_init db env = Inr g
    \<and> NICK g = strip (getenv (TWITCH_NICK env) [])
    \<and> TOKEN g = strip (getenv (TWITCH_OAUTH env) [])
    \<and> CHANNEL g = (if startswith (strip (getenv (TWITCH_CHANNEL env) [])) (str ''#'')
                    then strip (getenv (TWITCH_CHANNEL env) [])
                    else str ''#'' @ strip (getenv (TWITCH_CHANNEL env) []))
    \<and> code_regex g = (case CODE_REGEX env of Pattern c \<Rightarrow> c | _ \<Rightarrow> finditer db default_pattern)
    \<and> AUTO_REDEEM g = (AUTO_REDEEM_env env = Some (str ''1''))"
  using assms by (cases "CODE_REGEX env") (simp_all add: module_init_def Let_def)



lemma handshake_encodable:
  "list_all encodable (str ''PASS '')" "list_all encodable (str ''NICK '')"
  "list_all encodable (str ''JOIN '')" "list_all encodable (str ''#'')"
  "list_all encodable CRLF"
  by (simp_all add: str_def CRLF_def encodable_def)

lemma main_serve:
  assumes "NO_CONNECT env \<noteq> Some (str ''1'')" and "\<not> connect_fails w"
    and "list_all encodable (TOKEN g)" and "list_all encodable (NICK g)"
    and "list_all encodable (CHANNEL g)"
    and "\<not> send_fails w 0" and "\<not> send_fails w 1" and "\<not> send_fails w 2"
  shows "main db env g w initial
     = serve db g (send_fails w)
         \<lparr>seen_codes = {},
          trace = [Print (Connecting (NICK g)), SockConnect,
                   SockSend (str ''PASS '' @ TOKEN g @ CRLF),
                   SockSend (str ''NICK '' @ NICK g @ CRLF),
                   SockSend (str ''JOIN '' @ CHANNEL g @ CRLF),
                   Print (Joined (CHANNEL g))]\<rparr>
         [] (recvs w)"
  using assms
  by (simp add: main_def Let_def send_def emit_def initial_def sends_made_def
      handshake_encodable numeral_2_eq_2)

lemma main_connect_fails:
  "NO_CONNECT env \<noteq> Some (str ''1'') \<Longrightarrow> connect_fails w \<Longrightarrow>
   main db env g w initial
     = (Raised OSError, \<lparr>seen_codes = {}, trace = [Print (Connecting (NICK g)), SockConnect]\<rparr>)"
  by (simp add: main_def Let_def emit_def initial_def)

lemma test_code_extracted:
  "finditer db default_pattern (upper db (str ''TEST-CODE-1234-ABCD''))
     = [str ''TEST-CODE-1234-ABCD'']"
  by code_simp

lemma main_self_test:
  assumes "NO_CONNECT env = Some (str ''1'')" and "TEST_MESSAGE env = None"
    and "code_regex g = finditer db default_pattern"
  shows "main db env g w initial
     = (Returned,
        \<lparr>seen_codes = {str ''TEST-CODE-1234-ABCD''},
         trace = [Print (Connecting (NICK g)), Print (SelfTest (str ''TEST-CODE-1234-ABCD'')),
                  CallProcessMessage (str ''TEST-CODE-1234-ABCD''),
                  CopyToClipboard (str ''TEST-CODE-1234-ABCD''),
                  Print (CodeDetected (str ''TEST-CODE-1234-ABCD'')), Beep]
                 @ (if AUTO_REDEEM g then [FocusAndType (str ''TEST-CODE-1234-ABCD'')] else [])
                 @ [Print SelfTestComplete]\<rparr>)"
proof -
  have ex: "extract_codes db g (str ''TEST-CODE-1234-ABCD'') = [str ''TEST-CODE-1234-ABCD'']"
    by (simp only: extract_codes_def assms(3) test_code_extracted)
  show ?thesis
    by (simp add: main_def Let_def assms(1,2) getenv_def process_message_def ex
        handle_code_def classify_def emit_def initial_def)
qed

lemma example_env_values:
  "strip (getenv (TWITCH_NICK example_env) []) = str ''watcher''"
  "strip (getenv (TWITCH_OAUTH example_env) []) = str ''oauth:abc123''"
  "strip (getenv (TWITCH_CHANNEL example_env) []) = str ''somechannel''"
  "NO_CONNECT example_env = None" "TEST_MESSAGE example_env = None"
  "CODE_REGEX example_env = Unset" "AUTO_REDEEM_env example_env = None"
  by (simp_all add: example_env_def getenv_def strip_def is_space_def str_def)

lemma example_env_init: "module_init db example_env
  = Inr \<lparr>NICK = str ''watcher'', TOKEN = str ''oauth:abc123'', CHANNEL = str ''#somechannel'',
      code_regex = finditer db default_pattern, AUTO_REDEEM = False\<rparr>"
  by (simp add: module_init_def Let_def example_env_values) (simp add: str_def)

lemma example_env_encodable:
  "list_all encodable (str ''watcher'')" "list_all encodable (str ''oauth:abc123'')"
  "list_all encodable (str ''somechannel'')" "list_all encodable (str ''#somechannel'')"
  by (simp_all add: str_def encodable_def)

text \<open>
  C9: with a valid configuration, \<^verbatim>\<open>NO_CONNECT=1\<close>, no \<^verbatim>\<open>TEST_MESSAGE\<close> and the
  default pattern, the run calls \<^verbatim>\<open>process_message\<close> on \<^verbatim>\<open>TEST-CODE-1234-ABCD\<close>,
  takes the first-seen branch for that code once (clipboard, the printed line, the beep,
  and the automated entry when it is enabled), touches no socket, and returns with exit
  status 0.
\<close>

theorem self_test_detects_once:
  assumes "strip (getenv (TWITCH_NICK env) []) \<noteq> []"
    and "strip (getenv (TWITCH_OAUTH env) []) \<noteq> []"
    and "strip (getenv (TWITCH_CHANNEL env) []) \<noteq> []"
    and "startswith (strip (getenv (TWITCH_OAUTH env) [])) (str ''oauth:'')"
    and "NO_CONNECT env = Some (str ''1'')" and "TEST_MESSAGE env = None"
    and "CODE_REGEX env = Unset"
  shows "program db env w
     = (Returned,
        \<lparr>seen_codes = {str ''TEST-CODE-1234-ABCD''},
         trace = [Print (Connecting (strip (getenv (TWITCH_NICK env) []))),
                  Print (SelfTest (str ''TEST-CODE-1234-ABCD'')),
                  CallProcessMessage (str ''TEST-CODE-1234-ABCD''),
                  CopyToClipboard (str ''TEST-CODE-1234-ABCD''),
                  Print (CodeDetected (str ''TEST-CODE-1234-ABCD'')), Beep]
                 @ (if AUTO_REDEEM_env env = Some (str ''1'')
                    then [FocusAndType (str ''TEST-CODE-1234-ABCD'')] else [])
                 @ [Print SelfTestComplete]\<rparr>)
     \<and> exit_status (fst (program db env w)) = Some 0"
proof -
  from assms(7) have c: "CODE_REGEX env \<noteq> Malformed" by simp
  from module_init_ok [OF assms(1-4) c, of db] obtain g where g:
    "module_init db env = Inr g" "NICK g = strip (getenv (TWITCH_NICK env) [])"
    "code_regex g = (case CODE_REGEX env of Pattern c \<Rightarrow> c | _ \<Rightarrow> finditer db default_pattern)"
    "AUTO_REDEEM g = (AUTO_REDEEM_env env = Some (str ''1''))"
    by blast
  from g(3) assms(7) have re: "code_regex g = finditer db default_pattern"
    by simp
  have "program db env w = main db env g w initial"
    by (simp add: program_def g(1))
  with main_self_test [OF assms(5,6) re, of w] g(2,4) show ?thesis by simp
qed

text \<open>The self-test of the example environment.\<close>

theorem self_test_detects_once_witness:
  "program ascii_only (example_env\<lparr>NO_CONNECT := Some (str ''1'')\<rparr>)
       \<lparr>connect_fails = True, recvs = [], send_fails = first_send_fails\<rparr>
     = (Returned,
        \<lparr>seen_codes = {str ''TEST-CODE-1234-ABCD''},
         trace = [Print (Connecting (str ''watcher'')),
                  Print (SelfTest (str ''TEST-CODE-1234-ABCD'')),
                  CallProcessMessage (str ''TEST-CODE-1234-ABCD''),
                  CopyToClipboard (str ''TEST-CODE-1234-ABCD''),
                  Print (CodeDetected (str ''TEST-CODE-1234-ABCD'')), Beep,
                  Print SelfTestComplete]\<rparr>)"
proof -
  let ?env = "example_env\<lparr>NO_CONNECT := Some (str ''1'')\<rparr>"
  have h1: "strip (getenv (TWITCH_NICK ?env) []) \<noteq> []"
    by (simp add: example_env_values str_def)
  have h2: "strip (getenv (TWITCH_OAUTH ?env) []) \<noteq> []"
    by (simp add: example_env_values str_def)
  have h3: "strip (getenv (TWITCH_CHANNEL ?env) []) \<noteq> []"
    by (simp add: example_env_values str_def)
  have h4: "startswith (strip (getenv (TWITCH_OAUTH ?env) [])) (str ''oauth:'')"
    by (simp add: example_env_values str_def)
  have h5: "NO_CONNECT ?env = Some (str ''1'')" by simp
  have h6: "TEST_MESSAGE ?env = None" by (simp add: example_env_values)
  have h7: "CODE_REGEX ?env = Unset" by (simp add: example_env_values)
  from self_test_detects_once [OF h1 h2 h3 h4 h5 h6 h7, where db = ascii_only
      and w = "\<lparr>connect_fails = True, recvs = [], send_fails = first_send_fails\<rparr>"]
  show ?thesis by (simp add: example_env_values)
qed

text \<open>
  C7, as specified: a transport that closes right after the handshake is an
  authentication failure and not a normal end. In the program the first \<^verbatim>\<open>recv\<close> then
  gives no bytes, the loop prints \<^verbatim>\<open>Disconnected.\<close> and \<^verbatim>\<open>main\<close> returns: exit
  status 0.
\<close>

theorem immediate_close_is_normal_exit:
  "program ascii_only example_env
       \<lparr>connect_fails = False, recvs = [RecvBytes []], send_fails = no_send_fails\<rparr>
     = (Returned,
        \<lparr>seen_codes = {},
         trace = [Print (Connecting (str ''watcher'')), SockConnect,
                  SockSend (str ''PASS oauth:abc123'' @ CRLF),
                  SockSend (str ''NICK watcher'' @ CRLF),
                  SockSend (str ''JOIN #somechannel'' @ CRLF),
                  Print (Joined (str ''#somechannel'')), Print Disconnected]\<rparr>)
   \<and> exit_status
        (fst (program ascii_only example_env
           \<lparr>connect_fails = False, recvs = [RecvBytes []], send_fails = no_send_fails\<rparr>))
       = Some 0"
proof -
  let ?w = "\<lparr>connect_fails = False, recvs = [RecvBytes []], send_fails = no_send_fails\<rparr>"
  let ?g = "\<lparr>NICK = str ''watcher'', TOKEN = str ''oauth:abc123'',
      CHANNEL = str ''#somechannel'', code_regex = finditer ascii_only default_pattern,
      AUTO_REDEEM = False\<rparr>"
  have "main ascii_only example_env ?g ?w initial
     = serve ascii_only ?g (send_fails ?w)
         \<lparr>seen_codes = {},
          trace = [Print (Connecting (NICK ?g)), SockConnect,
                   SockSend (str ''PASS '' @ TOKEN ?g @ CRLF),
                   SockSend (str ''NICK '' @ NICK ?g @ CRLF),
                   SockSend (str ''JOIN '' @ CHANNEL ?g @ CRLF),
                   Print (Joined (CHANNEL ?g))]\<rparr>
         [] (recvs ?w)"
    by (rule main_serve) (simp_all add: example_env_values example_env_encodable no_send_fails_def)
  then have "program ascii_only example_env ?w
     = (Returned,
        \<lparr>seen_codes = {},
         trace = [Print (Connecting (str ''watcher'')), SockConnect,
                  SockSend (str ''PASS oauth:abc123'' @ CRLF),
                  SockSend (str ''NICK watcher'' @ CRLF),
                  SockSend (str ''JOIN #somechannel'' @ CRLF),
                  Print (Joined (str ''#somechannel'')), Print Disconnected]\<rparr>)"
    by (simp add: program_def example_env_init emit_def) (simp add: str_def)
  then show ?thesis by simp
qed

text \<open>
  C7, amended: with a valid configuration and a pattern that compiles, outside the
  self-test, an error of \<^verbatim>\<open>connect\<close> is not caught, so the process ends with status 1
  and has sent nothing; when the three handshake lines are sent (their text can be
  encoded and none of the three calls of \<^verbatim>\<open>sock.send\<close> raises) and the transport closes
  right after them, the session prints \<^verbatim>\<open>Disconnected.\<close> and ends normally, with
  status 0.
\<close>

theorem connect_error_raised_immediate_close_returns:
  assumes "strip (getenv (TWITCH_NICK env) []) \<noteq> []"
    and "strip (getenv (TWITCH_OAUTH env) []) \<noteq> []"
    and "strip (getenv (TWITCH_CHANNEL env) []) \<noteq> []"
    and "startswith (strip (getenv (TWITCH_OAUTH env) [])) (str ''oauth:'')"
    and "CODE_REGEX env \<noteq> Malformed"
    and "NO_CONNECT env \<noteq> Some (str ''1'')"
  shows "(connect_fails w \<longrightarrow>
          program db env w
            = (Raised OSError,
               \<lparr>seen_codes = {},
                trace = [Print (Connecting (strip (getenv (TWITCH_NICK env) []))), SockConnect]\<rparr>)
          \<and> exit_status (fst (program db env w)) = Some 1)
    \<and> (\<not> connect_fails w
          \<and> list_all encodable (strip (getenv (TWITCH_OAUTH env) []))
          \<and> list_all encodable (strip (getenv (TWITCH_NICK env) []))
          \<and> list_all encodable (strip (getenv (TWITCH_CHANNEL env) []))
          \<and> \<not> send_fails w 0 \<and> \<not> send_fails w 1 \<and> \<not> send_fails w 2
          \<and> recvs w = RecvBytes [] # rs \<longrightarrow>
          program db env w
            = (Returned,
               \<lparr>seen_codes = {},
                trace = [Print (Connecting (strip (getenv (TWITCH_NICK env) []))), SockConnect,
                   SockSend (str ''PASS '' @ strip (getenv (TWITCH_OAUTH env) []) @ CRLF),
                   SockSend (str ''NICK '' @ strip (getenv (TWITCH_NICK env) []) @ CRLF),
                   SockSend (str ''JOIN ''
                     @ (if startswith (strip (getenv (TWITCH_CHANNEL env) [])) (str ''#'')
                        then strip (getenv (TWITCH_CHANNEL env) [])
                        else str ''#'' @ strip (getenv (TWITCH_CHANNEL env) [])) @ CRLF),
                   Print (Joined
                     (if startswith (strip (getenv (TWITCH_CHANNEL env) [])) (str ''#'')
                      then strip (getenv (TWITCH_CHANNEL env) [])
                      else str ''#'' @ strip (getenv (TWITCH_CHANNEL env) []))),
                   Print Disconnected]\<rparr>)
          \<and> exit_status (fst (program db env w)) = Some 0)"
proof -
  from module_init_ok [OF assms(1-5), of db] obtain g where g:
    "module_init db env = Inr g" "NICK g = strip (getenv (TWITCH_NICK env) [])"
    "TOKEN g = strip (getenv (TWITCH_OAUTH env) [])"
    "CHANNEL g = (if startswith (strip (getenv (TWITCH_CHANNEL env) [])) (str ''#'')
                    then strip (getenv (TWITCH_CHANNEL env) [])
                    else str ''#'' @ strip (getenv (TWITCH_CHANNEL env) []))"
    by blast
  have p: "program db env w = main db env g w initial"
    by (simp add: program_def g(1))
  have a: "program db env w
            = (Raised OSError,
               \<lparr>seen_codes = {},
                trace = [Print (Connecting (strip (getenv (TWITCH_NICK env) []))), SockConnect]\<rparr>)"
    if "connect_fails w"
    using main_connect_fails [OF assms(6) that, of db g] p g(2) by simp
  have b: "program db env w
            = (Returned,
               \<lparr>seen_codes = {},
                trace = [Print (Connecting (strip (getenv (TWITCH_NICK env) []))), SockConnect,
                   SockSend (str ''PASS '' @ strip (getenv (TWITCH_OAUTH env) []) @ CRLF),
                   SockSend (str ''NICK '' @ strip (getenv (TWITCH_NICK env) []) @ CRLF),
                   SockSend (str ''JOIN ''
                     @ (if startswith (strip (getenv (TWITCH_CHANNEL env) [])) (str ''#'')
                        then strip (getenv (TWITCH_CHANNEL env) [])
                        else str ''#'' @ strip (getenv (TWITCH_CHANNEL env) [])) @ CRLF),
                   Print (Joined
                     (if startswith (strip (getenv (TWITCH_CHANNEL env) [])) (str ''#'')
                      then strip (getenv (TWITCH_CHANNEL env) [])
                      else str ''#'' @ strip (getenv (TWITCH_CHANNEL env) []))),
                   Print Disconnected]\<rparr>)"
    if c: "\<not> connect_fails w" and e: "list_all encodable (strip (getenv (TWITCH_OAUTH env) []))"
      "list_all encodable (strip (getenv (TWITCH_NICK env) []))"
      "list_all encodable (strip (getenv (TWITCH_CHANNEL env) []))"
      and s: "\<not> send_fails w 0" "\<not> send_fails w 1" "\<not> send_fails w 2"
      and r: "recvs w = RecvBytes [] # rs"
  proof -
    from e(3) g(4) have ec: "list_all encodable (CHANNEL g)"
      by (simp add: handshake_encodable)
    from e(1,2) g(2,3) have et: "list_all encodable (TOKEN g)" "list_all encodable (NICK g)"
      by simp_all
    from main_serve [OF assms(6) c et ec s, of db] p g(2,3,4) r show ?thesis
      by (simp add: emit_def)
  qed
  from a b show ?thesis by simp
qed

text \<open>Both cases for the example environment.\<close>

theorem connect_error_raised_immediate_close_returns_witness:
  "program ascii_only example_env
       \<lparr>connect_fails = True, recvs = [], send_fails = no_send_fails\<rparr>
     = (Raised OSError,
        \<lparr>seen_codes = {}, trace = [Print (Connecting (str ''watcher'')), SockConnect]\<rparr>)
   \<and> exit_status (fst (program ascii_only example_env
        \<lparr>connect_fails = True, recvs = [], send_fails = no_send_fails\<rparr>)) = Some 1
   \<and> exit_status (fst (program ascii_only example_env
        \<lparr>connect_fails = False, recvs = [RecvBytes [], RecvReset],
         send_fails = no_send_fails\<rparr>)) = Some 0"
proof -
  have h1: "strip (getenv (TWITCH_NICK example_env) []) \<noteq> []"
    by (simp add: example_env_values str_def)
  have h2: "strip (getenv (TWITCH_OAUTH example_env) []) \<noteq> []"
    by (simp add: example_env_values str_def)
  have h3: "strip (getenv (TWITCH_CHANNEL example_env) []) \<noteq> []"
    by (simp add: example_env_values str_def)
  have h4: "startswith (strip (getenv (TWITCH_OAUTH example_env) [])) (str ''oauth:'')"
    by (simp add: example_env_values str_def)
  have h5: "CODE_REGEX example_env \<noteq> Malformed"
    by (simp add: example_env_values)
  have h6: "NO_CONNECT example_env \<noteq> Some (str ''1'')"
    by (simp add: example_env_values)
  from connect_error_raised_immediate_close_returns [OF h1 h2 h3 h4 h5 h6, where db = ascii_only
      and w = "\<lparr>connect_fails = True, recvs = [], send_fails = no_send_fails\<rparr>"]
    connect_error_raised_immediate_close_returns [OF h1 h2 h3 h4 h5 h6, where db = ascii_only
      and w = "\<lparr>connect_fails = False, recvs = [RecvBytes [], RecvReset],
               send_fails = no_send_fails\<rparr>"
      and rs = "[RecvReset]"]
  show ?thesis
    by (simp add: example_env_values example_env_encodable no_send_fails_def)
qed




section \<open>The lock under concurrent callers\<close>

lemma caller_step_cases:
  assumes "caller_step code_of i sh = Some sh'"
  obtains
    (lock) "at (callers sh i) = BeforeLock" "lock_holder sh = None"
      "lock_holder sh' = Some i" "registry sh' = registry sh"
      "callers sh' = (callers sh)(i := (callers sh i)\<lparr>at := LockedCheck\<rparr>)"
  | (absent) "at (callers sh i) = LockedCheck" "code_of i \<notin> registry sh"
      "lock_holder sh' = lock_holder sh" "registry sh' = registry sh"
      "callers sh' = (callers sh)(i := (callers sh i)\<lparr>at := LockedAdd\<rparr>)"
  | (present) "at (callers sh i) = LockedCheck" "code_of i \<in> registry sh"
      "lock_holder sh' = lock_holder sh" "registry sh' = registry sh"
      "callers sh' = (callers sh)(i := (callers sh i)\<lparr>at := LockedRelease\<rparr>)"
  | (add) "at (callers sh i) = LockedAdd"
      "lock_holder sh' = lock_holder sh" "registry sh' = insert (code_of i) (registry sh)"
      "callers sh' = (callers sh)(i := (callers sh i)\<lparr>at := LockedSetFirst\<rparr>)"
  | (setfirst) "at (callers sh i) = LockedSetFirst"
      "lock_holder sh' = lock_holder sh" "registry sh' = registry sh"
      "callers sh' = (callers sh)(i := (callers sh i)\<lparr>first := True, at := LockedRelease\<rparr>)"
  | (release) "at (callers sh i) = LockedRelease"
      "lock_holder sh' = None" "registry sh' = registry sh"
      "callers sh' = (callers sh)(i := (callers sh i)\<lparr>at := AfterLock\<rparr>)"
  using assms by (cases "at (callers sh i)") (auto simp: caller_step_def Let_def split: if_splits)

lemma section_exclusive:
  "lock_exclusive sh \<Longrightarrow> in_section (callers sh a) \<Longrightarrow> in_section (callers sh b) \<Longrightarrow> a = b"
  by (simp add: lock_exclusive_def)

lemma section_empty:
  "lock_exclusive sh \<Longrightarrow> lock_holder sh = None \<Longrightarrow> \<not> in_section (callers sh a)"
  by (simp add: lock_exclusive_def)

lemma section_holder: "lock_exclusive sh \<Longrightarrow> in_section (callers sh a) \<Longrightarrow> lock_holder sh = Some a"
  by (simp add: lock_exclusive_def)

lemma registry_keeps_step: "registry_keeps seen sh \<Longrightarrow> caller_step code_of i sh = Some sh' \<Longrightarrow> registry_keeps seen sh'"
  by (erule caller_step_cases) (auto simp: registry_keeps_def)

lemma lock_exclusive_step:
  assumes "lock_exclusive sh" and "caller_step code_of i sh = Some sh'"
  shows "lock_exclusive sh'"
  using assms(2)
proof (cases rule: caller_step_cases)
  case lock
  with section_empty [OF assms(1) lock(2)] show ?thesis
    by (auto simp: lock_exclusive_def in_section_def)
next
  case absent
  then have "in_section (callers sh i)" by (simp add: in_section_def)
  with absent section_holder [OF assms(1) this] assms(1) show ?thesis
    by (auto simp: lock_exclusive_def in_section_def)
next
  case present
  then have "in_section (callers sh i)" by (simp add: in_section_def)
  with present section_holder [OF assms(1) this] assms(1) show ?thesis
    by (auto simp: lock_exclusive_def in_section_def)
next
  case add
  then have "in_section (callers sh i)" by (simp add: in_section_def)
  with add section_holder [OF assms(1) this] assms(1) show ?thesis
    by (auto simp: lock_exclusive_def in_section_def)
next
  case setfirst
  then have "in_section (callers sh i)" by (simp add: in_section_def)
  with setfirst section_holder [OF assms(1) this] assms(1) show ?thesis
    by (auto simp: lock_exclusive_def in_section_def)
next
  case release
  then have s: "in_section (callers sh i)" by (simp add: in_section_def)
  have "\<not> in_section (callers sh a)" if "a \<noteq> i" for a
    using section_exclusive [OF assms(1) s, of a] that by auto
  with release show ?thesis
    by (auto simp: lock_exclusive_def in_section_def)
qed

lemma first_after_check_step: "first_after_check sh \<Longrightarrow> caller_step code_of i sh = Some sh' \<Longrightarrow> first_after_check sh'"
  by (erule caller_step_cases) (auto simp: first_after_check_def)

lemma not_first:
  "first_after_check sh \<Longrightarrow> at (callers sh i) \<noteq> LockedRelease \<Longrightarrow> at (callers sh i) \<noteq> AfterLock \<Longrightarrow>
     \<not> first (callers sh i)"
  by (auto simp: first_after_check_def)

lemma adder_absent_step:
  assumes "lock_exclusive sh" and "adder_absent code_of sh" and "caller_step code_of i sh = Some sh'"
  shows "adder_absent code_of sh'"
  using assms(3)
proof (cases rule: caller_step_cases)
  case add
  then have s: "in_section (callers sh i)" by (simp add: in_section_def)
  have "at (callers sh a) \<noteq> LockedAdd" if "a \<noteq> i" for a
    using section_exclusive [OF assms(1) s, of a] that by (auto simp: in_section_def)
  with add show ?thesis by (auto simp: adder_absent_def)
qed (insert assms(2), auto simp: adder_absent_def)

lemma claimed_in_registry_step:
  assumes "registry_keeps seen sh" and "adder_absent code_of sh" and "claimed_in_registry seen code_of sh"
    and "caller_step code_of i sh = Some sh'"
  shows "claimed_in_registry seen code_of sh'"
  using assms(4)
proof (cases rule: caller_step_cases)
  case add
  with assms(2) have "code_of i \<notin> registry sh" by (simp add: adder_absent_def)
  with assms(1) have "code_of i \<notin> seen" by (auto simp: registry_keeps_def)
  with add assms(3) show ?thesis by (auto simp: claimed_in_registry_def claims_def)
qed (insert assms(3), auto simp: claimed_in_registry_def claims_def)

lemma checked_in_registry_step:
  assumes "claimed_in_registry seen code_of sh" and "checked_in_registry code_of sh" and "caller_step code_of i sh = Some sh'"
  shows "checked_in_registry code_of sh'"
  using assms(3)
proof (cases rule: caller_step_cases)
  case setfirst
  then have "claims (callers sh i)" by (simp add: claims_def)
  with assms(1) have "code_of i \<in> registry sh" by (simp add: claimed_in_registry_def)
  with setfirst assms(2) show ?thesis by (auto simp: checked_in_registry_def)
qed (insert assms(2), auto simp: checked_in_registry_def)

lemma claims_unchanged:
  assumes "first_after_check sh" and "caller_step code_of i sh = Some sh'"
    and "at (callers sh i) \<noteq> LockedAdd"
  shows "claims (callers sh' a) = claims (callers sh a)"
  using assms(2)
proof (cases rule: caller_step_cases)
  case lock
  with not_first [OF assms(1), of i] show ?thesis by (auto simp: claims_def)
next
  case absent
  with not_first [OF assms(1), of i] show ?thesis by (auto simp: claims_def)
next
  case present
  with not_first [OF assms(1), of i] show ?thesis by (auto simp: claims_def)
next
  case add
  with assms(3) show ?thesis by simp
next
  case setfirst
  then show ?thesis by (auto simp: claims_def)
next
  case release
  then show ?thesis by (auto simp: claims_def)
qed

lemma claims_add:
  assumes "first_after_check sh" and "caller_step code_of i sh = Some sh'" and "at (callers sh i) = LockedAdd"
  shows "claims (callers sh' a) = (a = i \<or> claims (callers sh a))"
    and "registry sh' = insert (code_of i) (registry sh)"
    and "\<not> claims (callers sh i)"
proof -
  from assms(2) have cs: "callers sh' = (callers sh)(i := callers sh i\<lparr>at := LockedSetFirst\<rparr>)"
    by (cases rule: caller_step_cases) (simp_all add: assms(3))
  from assms(2) have r: "registry sh' = insert (code_of i) (registry sh)"
    by (cases rule: caller_step_cases) (simp_all add: assms(3))
  from cs show "claims (callers sh' a) = (a = i \<or> claims (callers sh a))"
    by (auto simp: claims_def)
  from r show "registry sh' = insert (code_of i) (registry sh)" .
  from not_first [OF assms(1), of i] assms(3) show "\<not> claims (callers sh i)"
    by (simp add: claims_def)
qed

lemma registry_unchanged:
  "caller_step code_of i sh = Some sh' \<Longrightarrow> at (callers sh i) \<noteq> LockedAdd \<Longrightarrow>
     registry sh' = registry sh"
  by (erule caller_step_cases) auto

lemma claim_unique_step:
  assumes "adder_absent code_of sh" and "claimed_in_registry seen code_of sh" and "first_after_check sh" and "claim_unique code_of sh"
    and "caller_step code_of i sh = Some sh'"
  shows "claim_unique code_of sh'"
proof (cases "at (callers sh i) = LockedAdd")
  case False
  from claims_unchanged [OF assms(3,5) False] assms(4) show ?thesis
    by (simp add: claim_unique_def)
next
  case True
  note c = claims_add [OF assms(3,5) True]
  from assms(1) True have n: "code_of i \<notin> registry sh" by (simp add: adder_absent_def)
  have "code_of a \<noteq> code_of i" if "claims (callers sh a)" for a
    using assms(2) that n by (auto simp: claimed_in_registry_def)
  with assms(4) show ?thesis
    unfolding claim_unique_def c(1) by metis
qed

lemma added_has_claimant_step:
  assumes "first_after_check sh" and "added_has_claimant seen code_of sh" and "caller_step code_of i sh = Some sh'"
  shows "added_has_claimant seen code_of sh'"
proof (cases "at (callers sh i) = LockedAdd")
  case False
  from claims_unchanged [OF assms(1,3) False] registry_unchanged [OF assms(3) False] assms(2)
  show ?thesis by (simp add: added_has_claimant_def)
next
  case True
  note c = claims_add [OF assms(1,3) True]
  from assms(2) show ?thesis
    unfolding added_has_claimant_def c(1,2) by (metis insert_iff)
qed

lemma lock_inv_step:
  assumes "lock_inv seen code_of sh" and "caller_step code_of i sh = Some sh'"
  shows "lock_inv seen code_of sh'"
proof -
  from assms(1) have j: "registry_keeps seen sh" "lock_exclusive sh" "adder_absent code_of sh" "claimed_in_registry seen code_of sh" "first_after_check sh"
    "checked_in_registry code_of sh" "claim_unique code_of sh" "added_has_claimant seen code_of sh"
    by (simp_all add: lock_inv_def)
  note s = assms(2)
  from registry_keeps_step [OF j(1) s] lock_exclusive_step [OF j(2) s] adder_absent_step [OF j(2,3) s] claimed_in_registry_step [OF j(1,3,4) s]
    first_after_check_step [OF j(5) s] checked_in_registry_step [OF j(4,6) s] claim_unique_step [OF j(3,4,5,7) s] added_has_claimant_step [OF j(5,8) s]
  show ?thesis by (simp add: lock_inv_def)
qed

lemma lock_inv_start: "lock_inv seen code_of (all_before seen)"
  by (simp add: lock_inv_def all_before_def registry_keeps_def lock_exclusive_def adder_absent_def claimed_in_registry_def first_after_check_def checked_in_registry_def claim_unique_def added_has_claimant_def
      in_section_def claims_def)

lemma lock_inv_run: "lock_inv seen code_of sh \<Longrightarrow> lock_inv seen code_of (run_callers code_of sched sh)"
proof (induction sched arbitrary: sh)
  case Nil
  then show ?case by simp
next
  case (Cons i sched)
  show ?case
  proof (cases "caller_step code_of i sh")
    case None
    with Cons show ?thesis by simp
  next
    case (Some sh')
    from lock_inv_step [OF Cons.prems Some] have "lock_inv seen code_of sh'" .
    from Cons.IH [OF this] Some show ?thesis by simp
  qed
qed

text \<open>
  Whatever the schedule, from a state where every caller is before the block: two
  callers with the same code never both find \<^verbatim>\<open>first\<close> true; a caller finds it true
  only for a code that was not in the registry at the start; the registry keeps what it
  had; and once a caller with a new code has left the block while no caller with that
  code is inside it, some caller with that code has found \<^verbatim>\<open>first\<close> true.
\<close>

theorem one_first_seen_under_any_schedule:
  "(first (callers (run_callers code_of sched (all_before seen)) i)
      \<and> first (callers (run_callers code_of sched (all_before seen)) j) \<and> code_of i = code_of j
     \<longrightarrow> i = j)
   \<and> (first (callers (run_callers code_of sched (all_before seen)) i)
     \<longrightarrow> code_of i \<notin> seen \<and> code_of i \<in> registry (run_callers code_of sched (all_before seen)))
   \<and> seen \<subseteq> registry (run_callers code_of sched (all_before seen))
   \<and> (at (callers (run_callers code_of sched (all_before seen)) i) = AfterLock \<and> code_of i \<notin> seen
       \<and> (\<forall>j. code_of j = code_of i
              \<longrightarrow> \<not> in_section (callers (run_callers code_of sched (all_before seen)) j))
     \<longrightarrow> (\<exists>j. code_of j = code_of i \<and> first (callers (run_callers code_of sched (all_before seen)) j)))"
proof -
  define sh where "sh = run_callers code_of sched (all_before seen)"
  from lock_inv_run [OF lock_inv_start, of seen code_of sched]
  have j: "registry_keeps seen sh" "claimed_in_registry seen code_of sh" "checked_in_registry code_of sh" "claim_unique code_of sh" "added_has_claimant seen code_of sh"
    by (simp_all add: lock_inv_def sh_def)
  have a: "i = j" if "first (callers sh i)" "first (callers sh j)" "code_of i = code_of j"
    using j(4) that by (auto simp: claim_unique_def claims_def)
  have b: "code_of i \<notin> seen \<and> code_of i \<in> registry sh" if "first (callers sh i)"
    using j(2) that by (auto simp: claimed_in_registry_def claims_def)
  have c: "seen \<subseteq> registry sh" using j(1) by (simp add: registry_keeps_def)
  have d: "\<exists>j. code_of j = code_of i \<and> first (callers sh j)"
    if "at (callers sh i) = AfterLock" "code_of i \<notin> seen"
      "\<forall>j. code_of j = code_of i \<longrightarrow> \<not> in_section (callers sh j)"
  proof -
    from j(3) that(1) have "code_of i \<in> registry sh" by (simp add: checked_in_registry_def)
    with j(5) that(2) obtain k where k: "code_of k = code_of i" "claims (callers sh k)"
      by (auto simp: added_has_claimant_def)
    with that(3) have "\<not> in_section (callers sh k)" by simp
    with k(2) have "first (callers sh k)" by (auto simp: claims_def in_section_def)
    with k(1) show ?thesis by blast
  qed
  from a b c d show ?thesis unfolding sh_def by blast
qed

text \<open>A caller that runs through the block undisturbed does what \<open>classify\<close> says.\<close>

lemma solo_caller_is_classify:
  assumes "at (callers sh i) = BeforeLock" and "\<not> first (callers sh i)"
    and "lock_holder sh = None"
  shows "registry (run_callers code_of [i, i, i, i, i] sh) = snd (classify (code_of i) (registry sh))
    \<and> first (callers (run_callers code_of [i, i, i, i, i] sh) i)
        = fst (classify (code_of i) (registry sh))
    \<and> at (callers (run_callers code_of [i, i, i, i, i] sh) i) = AfterLock
    \<and> lock_holder (run_callers code_of [i, i, i, i, i] sh) = None"
  using assms by (simp add: caller_step_def Let_def classify_def)

text \<open>Two callers with the same code; the second tries the lock while the first holds
  it.\<close>

theorem one_first_seen_under_any_schedule_witness:
  "first (callers (run_callers (\<lambda>i. str ''AAAA-1111-BBBB-2222'') [0, 1, 0, 0, 1, 0, 0, 1, 1, 1] (all_before {})) 0)
   \<and> \<not> first (callers (run_callers (\<lambda>i. str ''AAAA-1111-BBBB-2222'') [0, 1, 0, 0, 1, 0, 0, 1, 1, 1] (all_before {})) 1)
   \<and> at (callers (run_callers (\<lambda>i. str ''AAAA-1111-BBBB-2222'') [0, 1, 0, 0, 1, 0, 0, 1, 1, 1] (all_before {})) 1)
       = AfterLock
   \<and> registry (run_callers (\<lambda>i. str ''AAAA-1111-BBBB-2222'') [0, 1, 0, 0, 1, 0, 0, 1, 1, 1] (all_before {}))
       = {str ''AAAA-1111-BBBB-2222''}"
proof -
  have e: "first (callers (run_callers (\<lambda>i. str ''AAAA-1111-BBBB-2222'') [0, 1, 0, 0, 1, 0, 0, 1, 1, 1] (all_before {})) 0)
    \<and> at (callers (run_callers (\<lambda>i. str ''AAAA-1111-BBBB-2222'') [0, 1, 0, 0, 1, 0, 0, 1, 1, 1] (all_before {})) 1)
       = AfterLock
    \<and> registry (run_callers (\<lambda>i. str ''AAAA-1111-BBBB-2222'') [0, 1, 0, 0, 1, 0, 0, 1, 1, 1] (all_before {}))
       = {str ''AAAA-1111-BBBB-2222''}"
    by (simp add: caller_step_def all_before_def Let_def)
  from one_first_seen_under_any_schedule [where code_of = "\<lambda>i. str ''AAAA-1111-BBBB-2222''"
      and sched = "[0, 1, 0, 0, 1, 0, 0, 1, 1, 1]" and seen = "{}" and i = 0 and j = 1] e
  show ?thesis by auto
qed

end
